theory Spec2Isabelle
  imports Main "HOL-Library.Word"
begin

unbundle bit_operations_syntax

section \<open>Data model of containers.c\<close>

text \<open>
  The UTF-8b codec of \<^verbatim>\<open>containers/containers.c\<close>.

  \<^item> \<^verbatim>\<open>octet\<close> is an 8-bit word, \<^verbatim>\<open>string_char\<close> and \<^verbatim>\<open>uint32_t\<close> are 32-bit words;
    \<^verbatim>\<open>iptr\<close> values (positions, lengths of Scheme objects) are \<open>int\<close>, \<^verbatim>\<open>size_t\<close> and
    \<^verbatim>\<open>uptr\<close> counts are \<open>nat\<close> (the code only ever decreases them by amounts it has
    checked to be smaller, or converts them to \<^verbatim>\<open>uint32_t\<close>, which is written out).
  \<^item> A Scheme string and a Scheme bytevector are records of their length and of the
    store that holds their elements: \<^verbatim>\<open>Sstring_ref(s, i)\<close> reads the store at \<open>i\<close>,
    \<^verbatim>\<open>Sstring_set(s, i, c)\<close> updates it at \<open>i\<close>, whatever \<open>i\<close> is, so that a write outside
    the object stays visible in the model. The arguments \<^verbatim>\<open>string\<close>, \<^verbatim>\<open>str\<close> and
    \<^verbatim>\<open>bvec\<close> have these types, hence \<^verbatim>\<open>Sstringp\<close> and \<^verbatim>\<open>Sbytevectorp\<close> hold of them.
  \<^item> The other Scheme values the code tests or returns are the datatype \<open>ptr\<close>:
    \<^verbatim>\<open>Sfalse\<close>, \<^verbatim>\<open>Strue\<close>, \<^verbatim>\<open>Schar(c)\<close>, \<^verbatim>\<open>Sfixnum(n)\<close> and a pair.
  \<^item> A read-only view \<^verbatim>\<open>(const octet* in, size_t in_len)\<close> is the list of the
    \<^verbatim>\<open>in_len\<close> bytes at \<^verbatim>\<open>in\<close>: \<^verbatim>\<open>in[k]\<close> is \<open>inp ! k\<close> (the code reads it only after it
    has checked \<^verbatim>\<open>k < in_len\<close>), \<^verbatim>\<open>in += n; in_len -= n\<close> is \<open>drop n inp\<close>.
  \<^item> The output pointer \<^verbatim>\<open>out + opos\<close> handed to \<^verbatim>\<open>c_codepoint_to_utf8b\<close> is the store
    \<open>out\<close> together with the position \<open>opos\<close>.
  \<^item> \<^verbatim>\<open>LIKELY\<close> and \<^verbatim>\<open>UNLIKELY\<close> are hints to the compiler and are left out, as is the
    second, unreachable test \<^verbatim>\<open>in_len == 0\<close> of \<^verbatim>\<open>c_bytes_utf8b_to_string_append\<close>.
\<close>

type_synonym octet = "8 word"
type_synonym string_char = "32 word"
type_synonym uint32_t = "32 word"

text \<open>
  Modelled from the spec: the objects of the host runtime and the macros that access them
  (\<^verbatim>\<open>Sfalse\<close>, \<^verbatim>\<open>Schar\<close>, \<^verbatim>\<open>Sfixnum\<close>, \<^verbatim>\<open>Scar\<close>, \<^verbatim>\<open>Sstring_length\<close>, \<^verbatim>\<open>Sstring_ref\<close>,
  \<^verbatim>\<open>Sstring_set\<close>, \<^verbatim>\<open>Sbytevector_length\<close>, \<^verbatim>\<open>Sbytevector_data\<close>), whose header is not among the
  sources. The spec gives what the codec needs of them: the length of a buffer, the byte or
  scalar at an index, setting the scalar at an index, and outcomes that are told apart.
  \<^verbatim>\<open>Sstring_ref\<close> and \<^verbatim>\<open>Sstring_set\<close> are the plain load and store of a \<^verbatim>\<open>string_char\<close>.
\<close>

datatype ptr = Sfalse | Strue | Schar string_char | Sfixnum int | Scons ptr ptr

record sstring =
  Sstring_length :: int
  Sstring_data :: "int \<Rightarrow> string_char"

record bytevector =
  Sbytevector_length :: int
  Sbytevector_data :: "int \<Rightarrow> octet"

definition Sstring_ref :: "sstring \<Rightarrow> int \<Rightarrow> string_char" where
  "Sstring_ref s i = Sstring_data s i"

definition Sstring_set :: "sstring \<Rightarrow> int \<Rightarrow> string_char \<Rightarrow> sstring" where
  "Sstring_set s i c = s\<lparr>Sstring_data := (Sstring_data s)(i := c)\<rparr>"

record u32pair =
  pair_codepoint :: uint32_t
  pair_length :: uint32_t

record sizepair =
  byte_n :: nat
  char_n :: nat

section \<open>Encoding one codepoint\<close>

definition c_codepoint_to_utf8b_length :: "uint32_t \<Rightarrow> int" where
  "c_codepoint_to_utf8b_length codepoint =
     (if codepoint < 0x800 then (if codepoint < 0x80 then 1 else 2)
      else if codepoint \<ge> 0xDC80 \<and> codepoint < 0xDD00 then 1
      else (if codepoint < 0x10000 then 3 else 4))"

text \<open>
  \<^verbatim>\<open>c_codepoint_to_utf8b(codepoint, out + opos, out_len)\<close>: the number of bytes written
  and the store afterwards. An assignment to an \<^verbatim>\<open>octet\<close> keeps the low 8 bits (\<open>ucast\<close>).
\<close>

definition c_codepoint_to_utf8b ::
  "string_char \<Rightarrow> (int \<Rightarrow> octet) \<Rightarrow> int \<Rightarrow> nat \<Rightarrow> nat \<times> (int \<Rightarrow> octet)" where
  "c_codepoint_to_utf8b codepoint out opos out_len =
     (if codepoint < 0x80 \<or> (codepoint \<ge> 0xDC80 \<and> codepoint < 0xDD00) then
        (if out_len > 0 then (1, out(opos := ucast codepoint)) else (0, out))
      else if codepoint < 0x800 then
        (if out_len \<ge> 2 then
           (2, out(opos := ucast (0xC0 OR (drop_bit 6 codepoint AND 0x1F)),
                   opos + 1 := ucast (0x80 OR (codepoint AND 0x3F))))
         else (0, out))
      else if codepoint < 0x10000 then
        (if codepoint < 0xD800 \<or> codepoint \<ge> 0xE000 then
           (if out_len \<ge> 3 then
              (3, out(opos := ucast (0xE0 OR (drop_bit 12 codepoint AND 0x0F)),
                      opos + 1 := ucast (0x80 OR (drop_bit 6 codepoint AND 0x3F)),
                      opos + 2 := ucast (0x80 OR (codepoint AND 0x3F))))
            else (0, out))
         else (0, out))
      else if codepoint < 0x110000 then
        (if out_len \<ge> 4 then
           (4, out(opos := ucast (0xF0 OR (drop_bit 18 codepoint AND 0x07)),
                   opos + 1 := ucast (0x80 OR (drop_bit 12 codepoint AND 0x3F)),
                   opos + 2 := ucast (0x80 OR (drop_bit 6 codepoint AND 0x3F)),
                   opos + 3 := ucast (0x80 OR (codepoint AND 0x3F))))
         else (0, out))
      else (0, out))"

section \<open>Encoding a range of a string\<close>

function c_string_to_utf8b_length_loop :: "sstring \<Rightarrow> int \<Rightarrow> int \<Rightarrow> int \<Rightarrow> int" where
  "c_string_to_utf8b_length_loop string i iend result =
     (if i < iend then
        c_string_to_utf8b_length_loop string (i + 1) iend
          (result + c_codepoint_to_utf8b_length (Sstring_ref string i))
      else result)"
  by pat_completeness auto
termination
  by (relation "measure (\<lambda>(string, i, iend, result). nat (iend - i))") auto

definition c_string_to_utf8b_length :: "sstring \<Rightarrow> int \<Rightarrow> int \<Rightarrow> int" where
  "c_string_to_utf8b_length string start end' =
     (if start \<ge> 0 \<and> end' > start then
        (let len = Sstring_length string;
             i = (if start < len then start else len);
             iend = (if end' < len then end' else len)
         in c_string_to_utf8b_length_loop string i iend 0)
      else 0)"

text \<open>
  The loop of \<^verbatim>\<open>c_string_to_utf8b_append\<close>: the value returned and the store of the
  bytevector afterwards.
\<close>

function c_string_to_utf8b_append_loop ::
  "sstring \<Rightarrow> int \<Rightarrow> int \<Rightarrow> (int \<Rightarrow> octet) \<Rightarrow> int \<Rightarrow> int \<Rightarrow> ptr \<times> (int \<Rightarrow> octet)" where
  "c_string_to_utf8b_append_loop string ipos iend out oend opos =
     (if ipos < iend then
        (if opos \<ge> oend then (Sfalse, out)
         else
           (let codepoint = Sstring_ref string ipos;
                (written, out') = c_codepoint_to_utf8b codepoint out opos (nat (oend - opos))
            in if written \<noteq> 0 then
                 c_string_to_utf8b_append_loop string (ipos + 1) iend out' oend
                   (opos + int written)
               else (Schar codepoint, out')))
      else (Sfixnum opos, out))"
  by pat_completeness auto
termination
  by (relation "measure (\<lambda>(string, ipos, iend, out, oend, opos). nat (iend - ipos))") auto

definition c_string_to_utf8b_append ::
  "sstring \<Rightarrow> int \<Rightarrow> int \<Rightarrow> bytevector \<Rightarrow> int \<Rightarrow> ptr \<times> bytevector" where
  "c_string_to_utf8b_append string start end' bvec ostart =
     (if start \<ge> 0 \<and> end' \<ge> start \<and> ostart \<ge> 0 then
        (let ilen = Sstring_length string;
             ipos = (if start < ilen then start else ilen);
             iend = (if end' < ilen then (if end' \<ge> start then end' else start) else ilen);
             out = Sbytevector_data bvec;
             oend = Sbytevector_length bvec;
             opos = ostart;
             (r, out') = c_string_to_utf8b_append_loop string ipos iend out oend opos
         in (r, bvec\<lparr>Sbytevector_data := out'\<rparr>))
      else (Sfalse, bvec))"

section \<open>Decoding one codepoint\<close>

definition c_utf8b_to_codepoint_length :: "octet list \<Rightarrow> uint32_t" where
  "c_utf8b_to_codepoint_length inp =
     (let in_len = length inp in
      if in_len = 0 then 0
      else
        let in0 = (ucast (inp ! 0) :: uint32_t) in
        if in0 < 0x80 then 1
        else if in0 < 0xC2 \<or> in0 > 0xF4 \<or> in_len = 1 then 1
        else
          let in1 = (ucast (inp ! 1) :: uint32_t) in
          if in1 AND 0xC0 \<noteq> 0x80 then 1
          else if in0 < 0xE0 then 2
          else if in_len = 2 then 1
          else
            let in2 = (ucast (inp ! 2) :: uint32_t) in
            if in2 AND 0xC0 \<noteq> 0x80 then 1
            else if in0 < 0xF0 then
              (let val = push_bit 12 (in0 AND 0x0F) OR push_bit 6 (in1 AND 0x3F) OR (in2 AND 0x3F)
               in if val \<ge> 0x800 \<and> (val < 0xD800 \<or> val \<ge> 0xE000) then 3 else 1)
            else if in_len = 3 then 1
            else
              let in3 = (ucast (inp ! 3) :: uint32_t) in
              if in0 \<le> 0xF4 \<and> in3 AND 0xC0 = 0x80 then
                (let val = push_bit 18 (in0 AND 0x07) OR push_bit 12 (in1 AND 0x3F)
                           OR push_bit 6 (in2 AND 0x3F) OR (in3 AND 0x3F)
                 in if val \<ge> 0x10000 \<and> val < 0x110000 then 4 else 1)
              else 1)"

definition c_utf8_ok :: "uint32_t \<Rightarrow> uint32_t \<Rightarrow> u32pair" where
  "c_utf8_ok cp len = \<lparr>pair_codepoint = cp, pair_length = len\<rparr>"

text \<open>
  \<^verbatim>\<open>ret.codepoint = -1\<close> stores \<open>0xFFFFFFFF\<close>; \<^verbatim>\<open>ret.length = in_len\<close> converts a
  \<^verbatim>\<open>uptr\<close> to \<^verbatim>\<open>uint32_t\<close> (\<open>of_nat\<close> reduces modulo \<open>2 ^ 32\<close>).
\<close>

definition c_utf8_incomplete :: "u32pair \<Rightarrow> nat \<Rightarrow> ptr \<Rightarrow> u32pair" where
  "c_utf8_incomplete ret in_len eof =
     (if eof = Sfalse then ret\<lparr>pair_codepoint := - 1, pair_length := of_nat in_len\<rparr>
      else ret)"

definition c_utf8b_to_codepoint :: "octet list \<Rightarrow> ptr \<Rightarrow> u32pair" where
  "c_utf8b_to_codepoint inp eof =
     (let in_len = length inp in
      if in_len = 0 then c_utf8_ok 0 0
      else
        let in0 = (ucast (inp ! 0) :: uint32_t) in
        if in0 < 0x80 then c_utf8_ok in0 1
        else
          let ret = c_utf8_ok (0xDC00 OR in0) 1 in
          if in0 < 0xC2 \<or> in0 > 0xF4 \<or> in_len = 1 then ret
          else
            let in1 = (ucast (inp ! 1) :: uint32_t) in
            if in1 AND 0xC0 \<noteq> 0x80 then ret
            else if in0 < 0xE0 then c_utf8_ok (push_bit 6 (in0 AND 0x1F) OR (in1 AND 0x3F)) 2
            else if in_len = 2 then c_utf8_incomplete ret in_len eof
            else
              let in2 = (ucast (inp ! 2) :: uint32_t) in
              if in2 AND 0xC0 \<noteq> 0x80 then ret
              else if in0 < 0xF0 then
                (let val = push_bit 12 (in0 AND 0x0F) OR push_bit 6 (in1 AND 0x3F) OR (in2 AND 0x3F)
                 in if val \<ge> 0x800 \<and> (val < 0xD800 \<or> val \<ge> 0xE000) then c_utf8_ok val 3
                    else ret)
              else if in_len = 3 then c_utf8_incomplete ret in_len eof
              else
                let in3 = (ucast (inp ! 3) :: uint32_t) in
                if in0 \<le> 0xF4 \<and> in3 AND 0xC0 = 0x80 then
                  (let val = push_bit 18 (in0 AND 0x07) OR push_bit 12 (in1 AND 0x3F)
                             OR push_bit 6 (in2 AND 0x3F) OR (in3 AND 0x3F)
                   in if val \<ge> 0x10000 \<and> val < 0x110000 then c_utf8_ok val 4 else ret)
                else ret)"

section \<open>Decoding a sequence of bytes\<close>

text \<open>
  The loop of \<^verbatim>\<open>c_bytes_utf8b_to_string_length\<close>. The recursion is on the bytes left;
  \<open>consumed\<close> is at least 1 and at most \<open>len\<close> where the loop goes on.
\<close>

function c_bytes_utf8b_to_string_length_loop :: "octet list \<Rightarrow> nat \<Rightarrow> nat" where
  "c_bytes_utf8b_to_string_length_loop bytes ret =
     (if length bytes > 0 then
        (let consumed = c_utf8b_to_codepoint_length bytes in
         if consumed = 0 \<or> unat consumed > length bytes then ret
         else c_bytes_utf8b_to_string_length_loop (drop (unat consumed) bytes) (ret + 1))
      else ret)"
  by pat_completeness auto
termination
  by (relation "measure (\<lambda>(bytes, ret). length bytes)") (auto simp: unat_gt_0)

definition c_bytes_utf8b_to_string_length :: "octet list \<Rightarrow> nat" where
  "c_bytes_utf8b_to_string_length bytes = c_bytes_utf8b_to_string_length_loop bytes 0"

definition c_sizepair :: "nat \<Rightarrow> nat \<Rightarrow> sizepair" where
  "c_sizepair b c = \<lparr>byte_n = b, char_n = c\<rparr>"

text \<open>
  The loop of \<^verbatim>\<open>c_bytes_utf8b_to_string_append\<close>: the bytes not consumed, the string
  and the position in it when the loop is left.
\<close>

function c_bytes_utf8b_to_string_append_loop ::
  "octet list \<Rightarrow> sstring \<Rightarrow> int \<Rightarrow> int \<Rightarrow> ptr \<Rightarrow> octet list \<times> sstring \<times> int" where
  "c_bytes_utf8b_to_string_append_loop inp str str_pos str_end eof =
     (if length inp > 0 then
        (let pair = c_utf8b_to_codepoint inp eof in
         if pair_length pair = 0 \<or> unat (pair_length pair) > length inp \<or> str_pos \<ge> str_end
         then (inp, str, str_pos)
         else c_bytes_utf8b_to_string_append_loop (drop (unat (pair_length pair)) inp)
                (Sstring_set str str_pos (pair_codepoint pair)) (str_pos + 1) str_end eof)
      else (inp, str, str_pos))"
  by pat_completeness auto
termination
  by (relation "measure (\<lambda>(inp, str, str_pos, str_end, eof). length inp)") (auto simp: unat_gt_0)

definition c_bytes_utf8b_to_string_append ::
  "octet list \<Rightarrow> sstring \<Rightarrow> int \<Rightarrow> int \<Rightarrow> ptr \<Rightarrow> sizepair \<times> sstring" where
  "c_bytes_utf8b_to_string_append inp str str_start str_end eof =
     (if length inp = 0 \<or> str_start \<ge> str_end then (c_sizepair 0 0, str)
      else
        (let in_len_save = length inp;
             str_pos = str_start;
             (inp', str', str_pos') =
                c_bytes_utf8b_to_string_append_loop inp str str_pos str_end eof
         in (c_sizepair (in_len_save - length inp') (nat (str_pos' - str_start)), str')))"

text \<open>
  \<^verbatim>\<open>c_bytevector_utf8b_to_string_append\<close>: the string and \<^verbatim>\<open>cons_eof\<close> afterwards.
  The view handed on is the \<^verbatim>\<open>bvec_end - bvec_start\<close> bytes at
  \<^verbatim>\<open>bvec_data + bvec_start\<close>.
\<close>

definition view_at :: "(int \<Rightarrow> 'a) \<Rightarrow> int \<Rightarrow> nat \<Rightarrow> 'a list" where
  "view_at dat p n = map (\<lambda>k. dat (p + int k)) [0..<n]"

definition c_bytevector_utf8b_to_string_append ::
  "bytevector \<Rightarrow> int \<Rightarrow> int \<Rightarrow> sstring \<Rightarrow> int \<Rightarrow> int \<Rightarrow> ptr \<Rightarrow> sstring \<times> ptr" where
  "c_bytevector_utf8b_to_string_append bvec bvec_start bvec_end str str_start str_end cons_eof =
     (case cons_eof of
        Scons a d \<Rightarrow>
          (if bvec_start \<ge> 0 \<and> bvec_end \<ge> bvec_start \<and> str_start \<ge> 0 \<and> str_end \<ge> str_start
              \<and> bvec_end \<le> Sbytevector_length bvec then
             (let bvec_data = Sbytevector_data bvec;
                  (ret, str') = c_bytes_utf8b_to_string_append
                     (view_at bvec_data bvec_start (nat (bvec_end - bvec_start)))
                     str str_start str_end a
              in (str', Scons (Sfixnum (int (byte_n ret))) (Sfixnum (int (char_n ret)))))
           else (str, Scons (Sfixnum 0) (Sfixnum 0)))
      | _ \<Rightarrow> (str, cons_eof))"

section \<open>Auxiliary notions for the proofs\<close>

text \<open>
  \<open>write_at out p xs\<close> is the store \<open>out\<close> after the elements of \<open>xs\<close> have been
  written at the positions \<open>p\<close>, \<open>p + 1\<close>, ...
\<close>

fun write_at :: "(int \<Rightarrow> 'a) \<Rightarrow> int \<Rightarrow> 'a list \<Rightarrow> int \<Rightarrow> 'a" where
  "write_at out p [] = out"
| "write_at out p (b # bs) = write_at (out(p := b)) (p + 1) bs"

text \<open>
  The bytes \<^verbatim>\<open>c_codepoint_to_utf8b\<close> writes for a codepoint when it is given room for four of them;
  the empty list when it writes nothing.
\<close>

definition utf8b_bytes :: "string_char \<Rightarrow> octet list" where
  "utf8b_bytes cp = (case c_codepoint_to_utf8b cp (\<lambda>_. 0) 0 4 of (w, out') \<Rightarrow> view_at out' 0 w)"

text \<open>
  The units that repeated calls of \<^verbatim>\<open>c_utf8b_to_codepoint\<close> cut a byte sequence into,
  with the stopping conditions of the loops of \<^verbatim>\<open>c_bytes_utf8b_to_string_append\<close>
  other than the capacity of the string.
\<close>

function utf8b_units :: "octet list \<Rightarrow> ptr \<Rightarrow> u32pair list" where
  "utf8b_units inp eof =
     (if length inp > 0 then
        (let pair = c_utf8b_to_codepoint inp eof in
         if pair_length pair = 0 \<or> unat (pair_length pair) > length inp then []
         else pair # utf8b_units (drop (unat (pair_length pair)) inp) eof)
      else [])"
  by pat_completeness auto
termination
  by (relation "measure (\<lambda>(inp, eof). length inp)") (auto simp: unat_gt_0)

text \<open>
  The numbers assembled from the payload bits of a two, three and four byte sequence, and
  the byte sequences that start with a well-formed one.
\<close>

definition utf8_val2 :: "octet \<Rightarrow> octet \<Rightarrow> nat" where
  "utf8_val2 b0 b1 = unat b0 mod 32 * 64 + unat b1 mod 64"

definition utf8_val3 :: "octet \<Rightarrow> octet \<Rightarrow> octet \<Rightarrow> nat" where
  "utf8_val3 b0 b1 b2 = unat b0 mod 16 * 4096 + unat b1 mod 64 * 64 + unat b2 mod 64"

definition utf8_val4 :: "octet \<Rightarrow> octet \<Rightarrow> octet \<Rightarrow> octet \<Rightarrow> nat" where
  "utf8_val4 b0 b1 b2 b3 = unat b0 mod 8 * 262144 + unat b1 mod 64 * 4096 + unat b2 mod 64 * 64 + unat b3 mod 64"

fun utf8_seq2 :: "octet list \<Rightarrow> bool" where
  "utf8_seq2 (b0 # b1 # rest) \<longleftrightarrow>
     194 \<le> unat b0 \<and> unat b0 < 224 \<and> 128 \<le> unat b1 \<and> unat b1 < 192"
| "utf8_seq2 _ \<longleftrightarrow> False"

fun utf8_seq3 :: "octet list \<Rightarrow> bool" where
  "utf8_seq3 (b0 # b1 # b2 # rest) \<longleftrightarrow>
     224 \<le> unat b0 \<and> unat b0 < 240 \<and> 128 \<le> unat b1 \<and> unat b1 < 192
     \<and> 128 \<le> unat b2 \<and> unat b2 < 192
     \<and> 2048 \<le> utf8_val3 b0 b1 b2 \<and> (utf8_val3 b0 b1 b2 < 55296 \<or> 57344 \<le> utf8_val3 b0 b1 b2)"
| "utf8_seq3 _ \<longleftrightarrow> False"

fun utf8_seq4 :: "octet list \<Rightarrow> bool" where
  "utf8_seq4 (b0 # b1 # b2 # b3 # rest) \<longleftrightarrow>
     240 \<le> unat b0 \<and> unat b0 \<le> 244 \<and> 128 \<le> unat b1 \<and> unat b1 < 192
     \<and> 128 \<le> unat b2 \<and> unat b2 < 192 \<and> 128 \<le> unat b3 \<and> unat b3 < 192
     \<and> 65536 \<le> utf8_val4 b0 b1 b2 b3 \<and> utf8_val4 b0 b1 b2 b3 < 1114112"
| "utf8_seq4 _ \<longleftrightarrow> False"

text \<open>
  The bytes that encoding the \<open>k\<close> scalars of a string from position \<open>ipos\<close> yields.
\<close>

definition enc_run :: "sstring \<Rightarrow> int \<Rightarrow> nat \<Rightarrow> octet list" where
  "enc_run string ipos k = concat (map utf8b_bytes (view_at (Sstring_data string) ipos k))"

text \<open>
  The equations of the loops are recursive and unconditional; they are unfolded by hand.
\<close>

declare c_bytes_utf8b_to_string_append_loop.simps [simp del]
declare c_bytes_utf8b_to_string_length_loop.simps [simp del]
declare c_string_to_utf8b_append_loop.simps [simp del]
declare c_string_to_utf8b_length_loop.simps [simp del]
declare utf8b_units.simps [simp del]
declare utf8_seq2.simps [simp del] utf8_seq3.simps [simp del] utf8_seq4.simps [simp del]

section \<open>Machine words as numbers\<close>

lemma unat_octet_less: "unat (b :: octet) < 256"
  using unsigned_less [of b] by simp

lemma unat_ucast_8_32: "unat (ucast (b :: octet) :: uint32_t) = unat b"
  using unat_octet_less [of b] by (simp add: unsigned_ucast_eq take_bit_eq_mod)

lemma unat_ucast_32_8: "unat (ucast (w :: uint32_t) :: octet) = unat w mod 256"
  by (simp add: unsigned_ucast_eq take_bit_eq_mod)

lemma unat_and_mask_nat: "unat (w AND mask n) = unat w mod 2 ^ n" for w :: "'a::len word"
  by (metis take_bit_eq_mask unsigned_take_bit_eq take_bit_eq_mod)

lemma unat_and_3F: "unat ((w :: uint32_t) AND 0x3F) = unat w mod 64"
  using unat_and_mask_nat [of w 6] by (simp add: mask_eq_exp_minus_1)

lemma unat_and_1F: "unat ((w :: uint32_t) AND 0x1F) = unat w mod 32"
  using unat_and_mask_nat [of w 5] by (simp add: mask_eq_exp_minus_1)

lemma unat_and_0F: "unat ((w :: uint32_t) AND 0x0F) = unat w mod 16"
  using unat_and_mask_nat [of w 4] by (simp add: mask_eq_exp_minus_1)

lemma unat_and_07: "unat ((w :: uint32_t) AND 0x07) = unat w mod 8"
  using unat_and_mask_nat [of w 3] by (simp add: mask_eq_exp_minus_1)

lemma unat_and_FF: "unat ((w :: uint32_t) AND 0xFF) = unat w mod 256"
  using unat_and_mask_nat [of w 8] by (simp add: mask_eq_exp_minus_1)

lemma unat_drop_bit_nat: "unat (drop_bit n w) = unat w div 2 ^ n" for w :: "'a::len word"
  by (metis unat_drop_bit_eq drop_bit_eq_div)

lemma unat_push_bit_nat: "unat (push_bit n w) = (unat w * 2 ^ n) mod 2 ^ LENGTH('a)" for w :: "'a::len word"
  by (metis unsigned_push_bit_eq take_bit_eq_mod push_bit_eq_mult)

lemma unat_or_disjoint: "x AND y = 0 \<Longrightarrow> unat (x OR y) = unat x + unat y" for x y :: "'a::len word"
proof -
  assume "x AND y = 0"
  then have "unat x AND unat y = 0" by (metis unsigned_and_eq unsigned_0)
  then have "unat x + unat y = unat x OR unat y" by (rule disjunctive_add_eq_or)
  then show ?thesis by (simp add: unsigned_or_eq)
qed

lemma nat_and_push_bit_zero: "b < 2 ^ n \<Longrightarrow> push_bit n k AND b = 0" for b k :: nat
proof (rule bit_eqI)
  fix i
  assume b: "b < 2 ^ n"
  show "bit (push_bit n k AND b) i = bit (0::nat) i"
  proof (cases "i < n")
    case True then show ?thesis by (simp add: bit_and_iff bit_push_bit_iff)
  next
    case False
    then have "2 ^ n \<le> (2::nat) ^ i" by simp
    with b have "b < 2 ^ i" by linarith
    then have "\<not> bit b i" by (simp add: bit_iff_odd)
    then show ?thesis by (simp add: bit_and_iff)
  qed
qed

lemma unat_or_add: "unat x < 2 ^ n \<Longrightarrow> unat y mod 2 ^ n = 0 \<Longrightarrow> unat (y OR x) = unat y + unat x"
  for x y :: "'a::len word"
proof -
  assume x: "unat x < 2 ^ n" and y: "unat y mod 2 ^ n = 0"
  from y have "2 ^ n dvd unat y" by (simp add: dvd_eq_mod_eq_0)
  then have "unat y = push_bit n (unat y div 2 ^ n)" by (simp only: push_bit_eq_mult dvd_div_mult_self)
  then have "unat y AND unat x = 0" using nat_and_push_bit_zero [OF x, of "unat y div 2 ^ n"] by simp
  then have "unat y + unat x = unat y OR unat x" by (rule disjunctive_add_eq_or)
  then show ?thesis by (simp add: unsigned_or_eq)
qed

lemma unat_and_C0: "unat ((w :: uint32_t) AND 0xC0) = unat w mod 256 - unat w mod 64"
proof -
  have "(w AND 0xC0) AND (w AND 0x3F) = (w AND w) AND (0xC0 AND 0x3F)"
    by (simp only: ac_simps)
  then have z: "(w AND 0xC0) AND (w AND 0x3F) = 0" by simp
  have "(w AND 0xC0) OR (w AND 0x3F) = w AND (0xC0 OR 0x3F)"
    by (simp only: bit.conj_disj_distrib)
  then have "(w AND 0xC0) OR (w AND 0x3F) = w AND 0xFF" by simp
  with unat_or_disjoint [OF z] have "unat (w AND 0xFF) = unat (w AND 0xC0) + unat (w AND 0x3F)" by simp
  then show ?thesis by (simp add: unat_and_FF unat_and_3F)
qed

lemma cont_byte_iff: "(ucast (b :: octet) :: uint32_t) AND 0xC0 = 0x80 \<longleftrightarrow> 128 \<le> unat b \<and> unat b < 192"
proof -
  have "(ucast b :: uint32_t) AND 0xC0 = 0x80 \<longleftrightarrow> unat ((ucast b :: uint32_t) AND 0xC0) = 128"
    by (simp add: word_unat_eq_iff)
  also have "\<dots> \<longleftrightarrow> unat b - unat b mod 64 = 128"
    using unat_octet_less [of b] by (simp add: unat_and_C0 unat_ucast_8_32)
  also have "\<dots> \<longleftrightarrow> 128 \<le> unat b \<and> unat b < 192"
  proof -
    have "unat b - unat b mod 64 = 64 * (unat b div 64)"
      by (simp add: minus_mod_eq_mult_div)
    moreover have "64 * (unat b div 64) = 128 \<longleftrightarrow> unat b div 64 = 2" by simp
    moreover have "unat b div 64 = 2 \<longleftrightarrow> 128 \<le> unat b \<and> unat b < 192" by linarith
    ultimately show ?thesis by simp
  qed
  finally show ?thesis .
qed


lemma unat_push_or:
  "unat hi * 2 ^ n < 2 ^ 32 \<Longrightarrow> unat lo < 2 ^ n \<Longrightarrow>
   unat (push_bit n hi OR lo :: uint32_t) = unat hi * 2 ^ n + unat lo"
proof -
  assume hi: "unat hi * 2 ^ n < 2 ^ 32" and lo: "unat lo < 2 ^ n"
  have a: "unat (push_bit n hi) = unat hi * 2 ^ n"
    using hi by (simp only: unat_push_bit_nat) simp
  have "unat (push_bit n hi OR lo) = unat (push_bit n hi) + unat lo"
    by (rule unat_or_add [where n = n]) (simp_all only: a lo, simp)
  then show ?thesis by (simp only: a)
qed


lemma unat_val2_gen:
  "unat A < 32 \<Longrightarrow> unat B < 64 \<Longrightarrow>
   unat (push_bit 6 A OR B :: uint32_t) = unat A * 64 + unat B"
  using unat_push_or [of A 6 B] by simp

lemma unat_val3_gen:
  assumes "unat A < 64" "unat B < 64" "unat C < 64"
  shows "unat (push_bit 12 A OR push_bit 6 B OR C :: uint32_t) = unat A * 4096 + unat B * 64 + unat C"
proof -
  have a: "unat (push_bit 6 B OR C) = unat B * 64 + unat C"
    using unat_push_or [of B 6 C] assms by simp
  have "unat (push_bit 12 A OR (push_bit 6 B OR C)) = unat A * 2 ^ 12 + unat (push_bit 6 B OR C)"
    by (rule unat_push_or) (use assms a in simp_all)
  with a show ?thesis by simp
qed

lemma unat_val4_gen:
  assumes "unat A < 8" "unat B < 64" "unat C < 64" "unat D < 64"
  shows "unat (push_bit 18 A OR push_bit 12 B OR push_bit 6 C OR D :: uint32_t)
         = unat A * 262144 + unat B * 4096 + unat C * 64 + unat D"
proof -
  have a: "unat (push_bit 12 B OR push_bit 6 C OR D) = unat B * 4096 + unat C * 64 + unat D"
    by (rule unat_val3_gen) (use assms in simp_all)
  have "unat (push_bit 18 A OR (push_bit 12 B OR push_bit 6 C OR D))
        = unat A * 2 ^ 18 + unat (push_bit 12 B OR push_bit 6 C OR D)"
    by (rule unat_push_or) (use assms a in simp_all)
  with a show ?thesis by simp
qed

lemma unat_val2:
  "unat (push_bit 6 (in0 AND 0x1F) OR (in1 AND 0x3F) :: uint32_t)
   = unat in0 mod 32 * 64 + unat in1 mod 64"
  using unat_val2_gen [of "in0 AND 0x1F" "in1 AND 0x3F"]
  by (simp only: unat_and_1F unat_and_3F; simp)

lemma unat_val3:
  "unat (push_bit 12 (in0 AND 0x0F) OR push_bit 6 (in1 AND 0x3F) OR (in2 AND 0x3F) :: uint32_t)
   = unat in0 mod 16 * 4096 + unat in1 mod 64 * 64 + unat in2 mod 64"
  using unat_val3_gen [of "in0 AND 0x0F" "in1 AND 0x3F" "in2 AND 0x3F"]
  by (simp only: unat_and_0F unat_and_3F; simp)

lemma unat_val4:
  "unat (push_bit 18 (in0 AND 0x07) OR push_bit 12 (in1 AND 0x3F) OR push_bit 6 (in2 AND 0x3F)
         OR (in3 AND 0x3F) :: uint32_t)
   = unat in0 mod 8 * 262144 + unat in1 mod 64 * 4096 + unat in2 mod 64 * 64 + unat in3 mod 64"
  using unat_val4_gen [of "in0 AND 0x07" "in1 AND 0x3F" "in2 AND 0x3F" "in3 AND 0x3F"]
  by (simp only: unat_and_07 unat_and_3F; simp)

lemma unat_esc: "unat (0xDC00 OR ucast (b :: octet) :: uint32_t) = 0xDC00 + unat b"
  using unat_or_add [of "ucast b :: uint32_t" 8 "0xDC00"] unat_octet_less [of b]
  by (simp add: unat_ucast_8_32)

lemma unat_octet_or:
  assumes "unat x < 2 ^ n" "unat c mod 2 ^ n = 0" "unat c + 2 ^ n \<le> 256"
  shows "unat (ucast (c OR x :: uint32_t) :: octet) = unat c + unat x"
proof -
  have "unat (c OR x) = unat c + unat x" using assms(1,2) by (rule unat_or_add)
  moreover have "unat c + unat x < 256" using assms(1,3) by linarith
  ultimately show ?thesis by (simp only: unat_ucast_32_8) simp
qed

lemma enc_lead2: "unat (ucast (0xC0 OR (drop_bit 6 cp AND 0x1F) :: uint32_t) :: octet) = 192 + unat cp div 64 mod 32"
  using unat_octet_or [of "drop_bit 6 cp AND 0x1F" 5 "0xC0"]
  by (simp only: unat_and_1F unat_drop_bit_nat) simp

lemma enc_lead3: "unat (ucast (0xE0 OR (drop_bit 12 cp AND 0x0F) :: uint32_t) :: octet) = 224 + unat cp div 4096 mod 16"
  using unat_octet_or [of "drop_bit 12 cp AND 0x0F" 4 "0xE0"]
  by (simp only: unat_and_0F unat_drop_bit_nat) simp

lemma enc_lead4: "unat (ucast (0xF0 OR (drop_bit 18 cp AND 0x07) :: uint32_t) :: octet) = 240 + unat cp div 262144 mod 8"
  using unat_octet_or [of "drop_bit 18 cp AND 0x07" 3 "0xF0"]
  by (simp only: unat_and_07 unat_drop_bit_nat) simp

lemma enc_cont0: "unat (ucast (0x80 OR (cp AND 0x3F) :: uint32_t) :: octet) = 128 + unat cp mod 64"
  using unat_octet_or [of "cp AND 0x3F" 6 "0x80"]
  by (simp only: unat_and_3F) simp

lemma enc_cont6: "unat (ucast (0x80 OR (drop_bit 6 cp AND 0x3F) :: uint32_t) :: octet) = 128 + unat cp div 64 mod 64"
  using unat_octet_or [of "drop_bit 6 cp AND 0x3F" 6 "0x80"]
  by (simp only: unat_and_3F unat_drop_bit_nat) simp

lemma enc_cont12: "unat (ucast (0x80 OR (drop_bit 12 cp AND 0x3F) :: uint32_t) :: octet) = 128 + unat cp div 4096 mod 64"
  using unat_octet_or [of "drop_bit 12 cp AND 0x3F" 6 "0x80"]
  by (simp only: unat_and_3F unat_drop_bit_nat) simp

subsection \<open>Digits in base 64\<close>

lemma mod_of_range: "k * m \<le> n \<Longrightarrow> n < k * m + m \<Longrightarrow> n mod m = n - k * (m::nat)"
  by (metis add.commute le_add_diff_inverse mod_less mod_mult_self2 nat_add_left_cancel_less mult.commute)

lemma lead2_mod: "192 \<le> n \<Longrightarrow> n < 224 \<Longrightarrow> n mod 32 = n - (192::nat)"
  using mod_of_range [of 6 32 n] by simp

lemma lead3_mod: "224 \<le> n \<Longrightarrow> n < 240 \<Longrightarrow> n mod 16 = n - (224::nat)"
  using mod_of_range [of 14 16 n] by simp

lemma lead4_mod: "240 \<le> n \<Longrightarrow> n < 248 \<Longrightarrow> n mod 8 = n - (240::nat)"
  using mod_of_range [of 30 8 n] by simp

lemma cont_mod: "128 \<le> n \<Longrightarrow> n < 192 \<Longrightarrow> n mod 64 = n - (128::nat)"
  using mod_of_range [of 2 64 n] by simp

lemma digits2:
  fixes a b :: nat
  assumes "b < 64"
  shows "(a * 64 + b) div 64 = a" "(a * 64 + b) mod 64 = b"
  using assms by simp_all

lemma digits3:
  fixes a b c :: nat
  assumes "b < 64" "c < 64"
  shows "(a * 4096 + b * 64 + c) div 4096 = a"
        "(a * 4096 + b * 64 + c) div 64 mod 64 = b"
        "(a * 4096 + b * 64 + c) mod 64 = c"
proof -
  have e: "a * 4096 + b * 64 + c = (a * 64 + b) * 64 + c" by simp
  show "(a * 4096 + b * 64 + c) mod 64 = c" using assms by (simp only: e digits2)
  show "(a * 4096 + b * 64 + c) div 64 mod 64 = b" using assms by (simp only: e digits2)
  have "b * 64 + c < 4096" using assms by linarith
  then show "(a * 4096 + b * 64 + c) div 4096 = a" by (simp add: add.assoc)
qed

lemma digits4:
  fixes a b c d :: nat
  assumes "b < 64" "c < 64" "d < 64"
  shows "(a * 262144 + b * 4096 + c * 64 + d) div 262144 = a"
        "(a * 262144 + b * 4096 + c * 64 + d) div 4096 mod 64 = b"
        "(a * 262144 + b * 4096 + c * 64 + d) div 64 mod 64 = c"
        "(a * 262144 + b * 4096 + c * 64 + d) mod 64 = d"
proof -
  have e: "a * 262144 + b * 4096 + c * 64 + d = (a * 64 + b) * 4096 + c * 64 + d" by simp
  show "(a * 262144 + b * 4096 + c * 64 + d) mod 64 = d" using assms by (simp only: e digits3)
  show "(a * 262144 + b * 4096 + c * 64 + d) div 64 mod 64 = c" using assms by (simp only: e digits3)
  show "(a * 262144 + b * 4096 + c * 64 + d) div 4096 mod 64 = b" using assms by (simp only: e digits3 digits2)
  have "b * 4096 + c * 64 + d < 262144" using assms by linarith
  then show "(a * 262144 + b * 4096 + c * 64 + d) div 262144 = a" by (simp add: add.assoc)
qed

lemma recompose2: "(n::nat) div 64 * 64 + n mod 64 = n" by simp
lemma recompose3: "(n::nat) div 4096 * 4096 + n div 64 mod 64 * 64 + n mod 64 = n"
proof -
  define m where "m = n div 64"
  define q where "q = m div 64"
  define r where "r = m mod 64"
  have a: "n div 4096 = q" by (simp add: m_def q_def div_mult2_eq)
  have "q * 64 + r = m" by (simp add: q_def r_def)
  then have "q * 4096 + r * 64 = m * 64" by linarith
  moreover have "m * 64 + n mod 64 = n" by (simp add: m_def)
  ultimately show ?thesis unfolding a r_def m_def by linarith
qed

lemma recompose4: "(n::nat) div 262144 * 262144 + n div 4096 mod 64 * 4096 + n div 64 mod 64 * 64 + n mod 64 = n"
proof -
  define m where "m = n div 64"
  have a: "n div 262144 = m div 4096" "n div 4096 = m div 64" by (simp_all add: m_def div_mult2_eq)
  have "m div 4096 * 4096 + m div 64 mod 64 * 64 + m mod 64 = m" by (rule recompose3)
  then have "m div 4096 * 262144 + m div 64 mod 64 * 4096 + m mod 64 * 64 = m * 64" by linarith
  moreover have "m * 64 + n mod 64 = n" by (simp add: m_def)
  ultimately show ?thesis unfolding a unfolding m_def by linarith
qed

section \<open>The scalar decoder by cases\<close>

text \<open>
  The decoder returns one of five results: the byte itself, the number of a well-formed
  two, three or four byte sequence, or, with end of input asserted, the escape of the
  first byte.
\<close>

lemmas w2n = word_less_nat_alt word_le_nat_alt unat_ucast_8_32 cont_byte_iff

lemma unat_dec2:
  "unat (push_bit 6 (ucast b0 AND 0x1F) OR (ucast b1 AND 0x3F) :: uint32_t) = utf8_val2 b0 b1"
  by (simp only: unat_val2 unat_ucast_8_32 utf8_val2_def)

lemma unat_dec3:
  "unat (push_bit 12 (ucast b0 AND 0x0F) OR push_bit 6 (ucast b1 AND 0x3F) OR (ucast b2 AND 0x3F) :: uint32_t)
   = utf8_val3 b0 b1 b2"
  by (simp only: unat_val3 unat_ucast_8_32 utf8_val3_def)

lemma unat_dec4:
  "unat (push_bit 18 (ucast b0 AND 0x07) OR push_bit 12 (ucast b1 AND 0x3F)
         OR push_bit 6 (ucast b2 AND 0x3F) OR (ucast b3 AND 0x3F) :: uint32_t)
   = utf8_val4 b0 b1 b2 b3"
  by (simp only: unat_val4 unat_ucast_8_32 utf8_val4_def)

lemmas dec_simps = c_utf8b_to_codepoint_def w2n Let_def unat_dec2 unat_dec3 unat_dec4

lemma dec_ascii:
  "unat b0 < 128 \<Longrightarrow> c_utf8b_to_codepoint (b0 # rest) eof = c_utf8_ok (ucast b0) 1"
  by (simp add: dec_simps)

lemma dec_two:
  "194 \<le> unat b0 \<Longrightarrow> unat b0 < 224 \<Longrightarrow> 128 \<le> unat b1 \<Longrightarrow> unat b1 < 192 \<Longrightarrow>
   c_utf8b_to_codepoint (b0 # b1 # rest) eof
     = c_utf8_ok (push_bit 6 (ucast b0 AND 0x1F) OR (ucast b1 AND 0x3F)) 2"
  by (simp add: dec_simps del: push_bit_and)

lemma dec_three:
  "224 \<le> unat b0 \<Longrightarrow> unat b0 < 240 \<Longrightarrow> 128 \<le> unat b1 \<Longrightarrow> unat b1 < 192 \<Longrightarrow>
   128 \<le> unat b2 \<Longrightarrow> unat b2 < 192 \<Longrightarrow>
   2048 \<le> utf8_val3 b0 b1 b2 \<Longrightarrow> utf8_val3 b0 b1 b2 < 55296 \<or> 57344 \<le> utf8_val3 b0 b1 b2 \<Longrightarrow>
   c_utf8b_to_codepoint (b0 # b1 # b2 # rest) eof
     = c_utf8_ok (push_bit 12 (ucast b0 AND 0x0F) OR push_bit 6 (ucast b1 AND 0x3F) OR (ucast b2 AND 0x3F)) 3"
  by (simp add: dec_simps del: push_bit_and)

lemma dec_four:
  "240 \<le> unat b0 \<Longrightarrow> unat b0 \<le> 244 \<Longrightarrow> 128 \<le> unat b1 \<Longrightarrow> unat b1 < 192 \<Longrightarrow>
   128 \<le> unat b2 \<Longrightarrow> unat b2 < 192 \<Longrightarrow> 128 \<le> unat b3 \<Longrightarrow> unat b3 < 192 \<Longrightarrow>
   65536 \<le> utf8_val4 b0 b1 b2 b3 \<Longrightarrow> utf8_val4 b0 b1 b2 b3 < 1114112 \<Longrightarrow>
   c_utf8b_to_codepoint (b0 # b1 # b2 # b3 # rest) eof
     = c_utf8_ok (push_bit 18 (ucast b0 AND 0x07) OR push_bit 12 (ucast b1 AND 0x3F)
                  OR push_bit 6 (ucast b2 AND 0x3F) OR (ucast b3 AND 0x3F)) 4"
  by (simp add: dec_simps del: push_bit_and)

lemma utf8_seq2_iff:
  "utf8_seq2 inp \<longleftrightarrow> (\<exists>b0 b1 rest. inp = b0 # b1 # rest \<and> 194 \<le> unat b0 \<and> unat b0 < 224
      \<and> 128 \<le> unat b1 \<and> unat b1 < 192)"
  by (cases inp rule: utf8_seq2.cases) (simp_all add: utf8_seq2.simps)

lemma utf8_seq3_iff:
  "utf8_seq3 inp \<longleftrightarrow> (\<exists>b0 b1 b2 rest. inp = b0 # b1 # b2 # rest \<and> 224 \<le> unat b0 \<and> unat b0 < 240
      \<and> 128 \<le> unat b1 \<and> unat b1 < 192 \<and> 128 \<le> unat b2 \<and> unat b2 < 192
      \<and> 2048 \<le> utf8_val3 b0 b1 b2 \<and> (utf8_val3 b0 b1 b2 < 55296 \<or> 57344 \<le> utf8_val3 b0 b1 b2))"
  by (cases inp rule: utf8_seq3.cases) (simp_all add: utf8_seq3.simps)

lemma utf8_seq4_iff:
  "utf8_seq4 inp \<longleftrightarrow> (\<exists>b0 b1 b2 b3 rest. inp = b0 # b1 # b2 # b3 # rest \<and> 240 \<le> unat b0 \<and> unat b0 \<le> 244
      \<and> 128 \<le> unat b1 \<and> unat b1 < 192 \<and> 128 \<le> unat b2 \<and> unat b2 < 192
      \<and> 128 \<le> unat b3 \<and> unat b3 < 192
      \<and> 65536 \<le> utf8_val4 b0 b1 b2 b3 \<and> utf8_val4 b0 b1 b2 b3 < 1114112)"
  by (cases inp rule: utf8_seq4.cases) (simp_all add: utf8_seq4.simps)

lemma dec_escape:
  assumes eof: "eof \<noteq> Sfalse" and hi: "128 \<le> unat b0"
    and n2: "\<not> utf8_seq2 (b0 # rest)" and n3: "\<not> utf8_seq3 (b0 # rest)" and n4: "\<not> utf8_seq4 (b0 # rest)"
  shows "c_utf8b_to_codepoint (b0 # rest) eof = c_utf8_ok (0xDC00 OR ucast b0) 1"
proof (cases "unat b0 < 194 \<or> 244 < unat b0 \<or> rest = []")
  case True
  then show ?thesis using hi by (auto simp add: dec_simps)
next
  case False
  then obtain b1 rest1 where r: "rest = b1 # rest1" and lead: "194 \<le> unat b0" "unat b0 \<le> 244"
    by (cases rest) auto
  show ?thesis
  proof (cases "128 \<le> unat b1 \<and> unat b1 < 192")
    case False
    then show ?thesis using r lead by (auto simp add: dec_simps)
  next
    case c1: True
    with n2 r lead have l3: "224 \<le> unat b0" by (auto simp add: utf8_seq2_iff)
    show ?thesis
    proof (cases rest1)
      case Nil
      then show ?thesis using r lead c1 l3 eof
        by (simp add: dec_simps c_utf8_incomplete_def)
    next
      case r1: (Cons b2 rest2)
      show ?thesis
      proof (cases "128 \<le> unat b2 \<and> unat b2 < 192")
        case False
        then show ?thesis using r r1 lead c1 l3 by (auto simp add: dec_simps)
      next
        case c2: True
        show ?thesis
        proof (cases "unat b0 < 240")
          case True
          with n3 r r1 c1 c2 l3
          have "\<not> (2048 \<le> utf8_val3 b0 b1 b2 \<and> (utf8_val3 b0 b1 b2 < 55296 \<or> 57344 \<le> utf8_val3 b0 b1 b2))"
            by (auto simp add: utf8_seq3_iff)
          then show ?thesis using r r1 lead c1 c2 l3 True
            by (auto simp add: dec_simps simp del: push_bit_and)
        next
          case l4: False
          show ?thesis
          proof (cases rest2)
            case Nil
            then show ?thesis using r r1 lead c1 c2 l3 l4 eof
              by (simp add: dec_simps c_utf8_incomplete_def)
          next
            case r2: (Cons b3 rest3)
            show ?thesis
            proof (cases "128 \<le> unat b3 \<and> unat b3 < 192")
              case False
              then show ?thesis using r r1 r2 lead c1 c2 l3 l4
                by (auto simp add: dec_simps simp del: push_bit_and)
            next
              case c3: True
              with n4 r r1 r2 c1 c2 l4 lead
              have "\<not> (65536 \<le> utf8_val4 b0 b1 b2 b3 \<and> utf8_val4 b0 b1 b2 b3 < 1114112)"
                by (auto simp add: utf8_seq4_iff)
              then show ?thesis using r r1 r2 lead c1 c2 c3 l3 l4
                by (auto simp add: dec_simps simp del: push_bit_and)
            qed
          qed
        qed
      qed
    qed
  qed
qed

section \<open>The scalar encoder by cases\<close>

lemma view_at_0: "view_at d p 0 = []"
  by (simp add: view_at_def)

lemma view_at_1: "view_at d p 1 = [d p]" "view_at d p (Suc 0) = [d p]"
  by (simp_all add: view_at_def)

lemma view_at_2: "view_at d p 2 = [d p, d (p + 1)]"
  by (simp add: view_at_def numeral_2_eq_2)

lemma view_at_3: "view_at d p 3 = [d p, d (p + 1), d (p + 2)]"
  by (simp add: view_at_def numeral_3_eq_3)

lemma view_at_4: "view_at d p 4 = [d p, d (p + 1), d (p + 2), d (p + 3)]"
proof -
  have "[0..<4] = [0, 1, 2, 3::nat]" by (simp add: upt_rec)
  then show ?thesis by (simp add: view_at_def)
qed

lemmas view_at_simps = view_at_0 view_at_1 view_at_2 view_at_3 view_at_4

lemmas enc_simps = c_codepoint_to_utf8b_def word_less_nat_alt word_le_nat_alt

lemma utf8b_bytes_1:
  "unat cp < 128 \<or> (56448 \<le> unat cp \<and> unat cp < 56576) \<Longrightarrow> utf8b_bytes cp = [ucast cp]"
  by (auto simp add: utf8b_bytes_def enc_simps view_at_simps)

lemma utf8b_bytes_2:
  "128 \<le> unat cp \<Longrightarrow> unat cp < 2048 \<Longrightarrow>
   utf8b_bytes cp = [ucast (0xC0 OR (drop_bit 6 cp AND 0x1F)), ucast (0x80 OR (cp AND 0x3F))]"
  by (simp add: utf8b_bytes_def enc_simps view_at_simps)

lemma utf8b_bytes_3:
  "2048 \<le> unat cp \<Longrightarrow> unat cp < 55296 \<or> (57344 \<le> unat cp \<and> unat cp < 65536) \<Longrightarrow>
   utf8b_bytes cp = [ucast (0xE0 OR (drop_bit 12 cp AND 0x0F)), ucast (0x80 OR (drop_bit 6 cp AND 0x3F)),
                     ucast (0x80 OR (cp AND 0x3F))]"
  by (auto simp add: utf8b_bytes_def enc_simps view_at_simps)

lemma utf8b_bytes_4:
  "65536 \<le> unat cp \<Longrightarrow> unat cp < 1114112 \<Longrightarrow>
   utf8b_bytes cp = [ucast (0xF0 OR (drop_bit 18 cp AND 0x07)), ucast (0x80 OR (drop_bit 12 cp AND 0x3F)),
                     ucast (0x80 OR (drop_bit 6 cp AND 0x3F)), ucast (0x80 OR (cp AND 0x3F))]"
  by (simp add: utf8b_bytes_def enc_simps view_at_simps)

lemma utf8b_bytes_invalid:
  "(55296 \<le> unat cp \<and> unat cp < 56448) \<or> (56576 \<le> unat cp \<and> unat cp < 57344) \<or> 1114112 \<le> unat cp
   \<Longrightarrow> utf8b_bytes cp = []"
  by (auto simp add: utf8b_bytes_def enc_simps view_at_0)

lemma c_codepoint_to_utf8b_eq:
  "c_codepoint_to_utf8b cp out opos n =
     (if utf8b_bytes cp \<noteq> [] \<and> length (utf8b_bytes cp) \<le> n
      then (length (utf8b_bytes cp), write_at out opos (utf8b_bytes cp)) else (0, out))"
proof -
  consider (one) "unat cp < 128 \<or> (56448 \<le> unat cp \<and> unat cp < 56576)"
    | (two) "128 \<le> unat cp" "unat cp < 2048"
    | (three) "2048 \<le> unat cp" "unat cp < 55296 \<or> (57344 \<le> unat cp \<and> unat cp < 65536)"
    | (four) "65536 \<le> unat cp" "unat cp < 1114112"
    | (inv) "(55296 \<le> unat cp \<and> unat cp < 56448) \<or> (56576 \<le> unat cp \<and> unat cp < 57344) \<or> 1114112 \<le> unat cp"
    by linarith
  then show ?thesis
  proof cases
    case one
    then show ?thesis by (auto simp add: utf8b_bytes_1 enc_simps)
  next
    case two
    then show ?thesis by (simp add: utf8b_bytes_2 enc_simps)
  next
    case three
    then show ?thesis by (auto simp add: utf8b_bytes_3 enc_simps add.assoc)
  next
    case four
    then show ?thesis by (simp add: utf8b_bytes_4 enc_simps add.assoc)
  next
    case inv
    then show ?thesis by (auto simp add: utf8b_bytes_invalid enc_simps)
  qed
qed

subsection \<open>Stores and views\<close>

lemma write_at_append: "write_at out p (xs @ ys) = write_at (write_at out p xs) (p + int (length xs)) ys"
  by (induction xs arbitrary: out p) (simp_all add: add.assoc)

lemma write_at_outside: "i < p \<or> p + int (length xs) \<le> i \<Longrightarrow> write_at out p xs i = out i"
  by (induction xs arbitrary: out p) auto

lemma write_at_inside: "k < length xs \<Longrightarrow> write_at out p xs (p + int k) = xs ! k"
proof (induction xs arbitrary: out p k)
  case Nil then show ?case by simp
next
  case (Cons x xs)
  show ?case
  proof (cases k)
    case 0 then show ?thesis by (simp add: write_at_outside)
  next
    case (Suc j)
    with Cons.prems have j: "j < length xs" by simp
    have "write_at out p (x # xs) (p + int k) = write_at (out(p := x)) (p + 1) xs ((p + 1) + int j)"
      using Suc by (simp add: add.assoc)
    also have "\<dots> = xs ! j" using j by (rule Cons.IH)
    finally show ?thesis using Suc by simp
  qed
qed

lemma view_at_write_at: "view_at (write_at out p xs) p (length xs) = xs"
  by (rule nth_equalityI) (simp_all add: view_at_def write_at_inside)

section \<open>Decoding one unit, then encoding it\<close>

lemma utf8_val2_facts:
  assumes "194 \<le> unat b0" "unat b0 < 224" "128 \<le> unat b1" "unat b1 < 192"
  shows "128 \<le> utf8_val2 b0 b1" "utf8_val2 b0 b1 < 2048"
        "192 + utf8_val2 b0 b1 div 64 mod 32 = unat b0" "128 + utf8_val2 b0 b1 mod 64 = unat b1"
proof -
  define a where "a = unat b0 - 192"
  define c where "c = unat b1 - 128"
  have a: "2 \<le> a" "a < 32" and c: "c < 64" using assms by (simp_all add: a_def c_def)
  have v: "utf8_val2 b0 b1 = a * 64 + c"
    using assms by (simp add: utf8_val2_def lead2_mod cont_mod a_def c_def)
  show "128 \<le> utf8_val2 b0 b1" "utf8_val2 b0 b1 < 2048" using a c by (simp_all add: v)
  show "192 + utf8_val2 b0 b1 div 64 mod 32 = unat b0"
    using a assms by (simp only: v digits2 [OF c]) (simp add: a_def)
  show "128 + utf8_val2 b0 b1 mod 64 = unat b1"
    using assms by (simp only: v digits2 [OF c]) (simp add: c_def)
qed

lemma utf8_val3_facts:
  assumes "224 \<le> unat b0" "unat b0 < 240" "128 \<le> unat b1" "unat b1 < 192"
          "128 \<le> unat b2" "unat b2 < 192"
  shows "utf8_val3 b0 b1 b2 < 65536"
        "224 + utf8_val3 b0 b1 b2 div 4096 mod 16 = unat b0"
        "128 + utf8_val3 b0 b1 b2 div 64 mod 64 = unat b1" "128 + utf8_val3 b0 b1 b2 mod 64 = unat b2"
proof -
  define a where "a = unat b0 - 224"
  define c where "c = unat b1 - 128"
  define d where "d = unat b2 - 128"
  have a: "a < 16" and c: "c < 64" and d: "d < 64" using assms by (simp_all add: a_def c_def d_def)
  have v: "utf8_val3 b0 b1 b2 = a * 4096 + c * 64 + d"
    using assms by (simp add: utf8_val3_def lead3_mod cont_mod a_def c_def d_def)
  show "utf8_val3 b0 b1 b2 < 65536" using a c d unfolding v by linarith
  show "224 + utf8_val3 b0 b1 b2 div 4096 mod 16 = unat b0"
    using a assms by (simp only: v digits3 [OF c d]) (simp add: a_def)
  show "128 + utf8_val3 b0 b1 b2 div 64 mod 64 = unat b1"
    using assms by (simp only: v digits3 [OF c d]) (simp add: c_def)
  show "128 + utf8_val3 b0 b1 b2 mod 64 = unat b2"
    using assms by (simp only: v digits3 [OF c d]) (simp add: d_def)
qed

lemma utf8_val4_facts:
  assumes "240 \<le> unat b0" "unat b0 \<le> 244" "128 \<le> unat b1" "unat b1 < 192"
          "128 \<le> unat b2" "unat b2 < 192" "128 \<le> unat b3" "unat b3 < 192"
  shows "240 + utf8_val4 b0 b1 b2 b3 div 262144 mod 8 = unat b0"
        "128 + utf8_val4 b0 b1 b2 b3 div 4096 mod 64 = unat b1"
        "128 + utf8_val4 b0 b1 b2 b3 div 64 mod 64 = unat b2" "128 + utf8_val4 b0 b1 b2 b3 mod 64 = unat b3"
proof -
  define a where "a = unat b0 - 240"
  define c where "c = unat b1 - 128"
  define d where "d = unat b2 - 128"
  define e where "e = unat b3 - 128"
  have a: "a < 8" and c: "c < 64" and d: "d < 64" and e: "e < 64"
    using assms by (simp_all add: a_def c_def d_def e_def)
  have v: "utf8_val4 b0 b1 b2 b3 = a * 262144 + c * 4096 + d * 64 + e"
    using assms by (simp add: utf8_val4_def lead4_mod cont_mod a_def c_def d_def e_def)
  show "240 + utf8_val4 b0 b1 b2 b3 div 262144 mod 8 = unat b0"
    using a assms by (simp only: v digits4 [OF c d e]) (simp add: a_def)
  show "128 + utf8_val4 b0 b1 b2 b3 div 4096 mod 64 = unat b1"
    using assms by (simp only: v digits4 [OF c d e]) (simp add: c_def)
  show "128 + utf8_val4 b0 b1 b2 b3 div 64 mod 64 = unat b2"
    using assms by (simp only: v digits4 [OF c d e]) (simp add: d_def)
  show "128 + utf8_val4 b0 b1 b2 b3 mod 64 = unat b3"
    using assms by (simp only: v digits4 [OF c d e]) (simp add: e_def)
qed


lemma esc_mod: "n < 256 \<Longrightarrow> (56320 + n) mod 256 = (n::nat)"
  using mod_of_range [of 220 256 "56320 + n"] by simp

lemma ucast_ucast_octet: "ucast (ucast (b :: octet) :: uint32_t) = b"
  by (simp add: word_unat_eq_iff unat_ucast_32_8 unat_ucast_8_32 unat_octet_less)

lemma octet_eqI: "unat (x :: octet) = unat y \<Longrightarrow> x = y"
  by (simp add: word_unat_eq_iff)

lemma dec_enc_unit:
  assumes ne: "inp \<noteq> []" and eof: "eof \<noteq> Sfalse"
  shows "utf8b_bytes (pair_codepoint (c_utf8b_to_codepoint inp eof))
           = take (unat (pair_length (c_utf8b_to_codepoint inp eof))) inp
         \<and> 0 < unat (pair_length (c_utf8b_to_codepoint inp eof))
         \<and> unat (pair_length (c_utf8b_to_codepoint inp eof)) \<le> length inp"
proof -
  from ne obtain b0 rest where inp: "inp = b0 # rest" by (cases inp) auto
  consider (ascii) "unat b0 < 128" | (two) "utf8_seq2 inp" | (three) "utf8_seq3 inp" | (four) "utf8_seq4 inp"
    | (esc) "128 \<le> unat b0" "\<not> utf8_seq2 inp" "\<not> utf8_seq3 inp" "\<not> utf8_seq4 inp"
    by linarith
  then show ?thesis
  proof cases
    case ascii
    then have "utf8b_bytes (ucast b0) = [ucast (ucast b0 :: uint32_t)]"
      by (intro utf8b_bytes_1) (simp add: unat_ucast_8_32)
    then show ?thesis using ascii inp
      by (simp add: dec_ascii c_utf8_ok_def ucast_ucast_octet)
  next
    case two
    then obtain b1 rest' where i2: "inp = b0 # b1 # rest'"
      and c: "194 \<le> unat b0" "unat b0 < 224" "128 \<le> unat b1" "unat b1 < 192"
      using inp by (auto simp add: utf8_seq2_iff)
    let ?cp = "push_bit 6 (ucast b0 AND 0x1F) OR (ucast b1 AND 0x3F) :: uint32_t"
    note f = utf8_val2_facts [OF c]
    have d: "c_utf8b_to_codepoint inp eof = c_utf8_ok ?cp 2"
      unfolding i2 using c by (rule dec_two)
    have "utf8b_bytes ?cp = [ucast (0xC0 OR (drop_bit 6 ?cp AND 0x1F)), ucast (0x80 OR (?cp AND 0x3F))]"
      by (rule utf8b_bytes_2) (simp_all only: unat_dec2 f)
    moreover have "ucast (0xC0 OR (drop_bit 6 ?cp AND 0x1F)) = b0"
      by (rule octet_eqI) (simp only: enc_lead2 unat_dec2 f)
    moreover have "ucast (0x80 OR (?cp AND 0x3F)) = b1"
      by (rule octet_eqI) (simp only: enc_cont0 unat_dec2 f)
    ultimately show ?thesis unfolding d by (simp add: c_utf8_ok_def i2)
  next
    case three
    then obtain b1 b2 rest' where i3: "inp = b0 # b1 # b2 # rest'"
      and c: "224 \<le> unat b0" "unat b0 < 240" "128 \<le> unat b1" "unat b1 < 192"
             "128 \<le> unat b2" "unat b2 < 192"
      and v: "2048 \<le> utf8_val3 b0 b1 b2" "utf8_val3 b0 b1 b2 < 55296 \<or> 57344 \<le> utf8_val3 b0 b1 b2"
      using inp by (auto simp add: utf8_seq3_iff)
    let ?cp = "push_bit 12 (ucast b0 AND 0x0F) OR push_bit 6 (ucast b1 AND 0x3F) OR (ucast b2 AND 0x3F) :: uint32_t"
    note f = utf8_val3_facts [OF c]
    have d: "c_utf8b_to_codepoint inp eof = c_utf8_ok ?cp 3"
      unfolding i3 using c v by (rule dec_three)
    have "utf8b_bytes ?cp = [ucast (0xE0 OR (drop_bit 12 ?cp AND 0x0F)),
            ucast (0x80 OR (drop_bit 6 ?cp AND 0x3F)), ucast (0x80 OR (?cp AND 0x3F))]"
      by (rule utf8b_bytes_3) (use v f(1) in \<open>simp_all only: unat_dec3\<close>, auto)
    moreover have "ucast (0xE0 OR (drop_bit 12 ?cp AND 0x0F)) = b0"
      by (rule octet_eqI) (simp only: enc_lead3 unat_dec3 f)
    moreover have "ucast (0x80 OR (drop_bit 6 ?cp AND 0x3F)) = b1"
      by (rule octet_eqI) (simp only: enc_cont6 unat_dec3 f)
    moreover have "ucast (0x80 OR (?cp AND 0x3F)) = b2"
      by (rule octet_eqI) (simp only: enc_cont0 unat_dec3 f)
    ultimately show ?thesis unfolding d by (simp add: c_utf8_ok_def i3)
  next
    case four
    then obtain b1 b2 b3 rest' where i4: "inp = b0 # b1 # b2 # b3 # rest'"
      and c: "240 \<le> unat b0" "unat b0 \<le> 244" "128 \<le> unat b1" "unat b1 < 192"
             "128 \<le> unat b2" "unat b2 < 192" "128 \<le> unat b3" "unat b3 < 192"
      and v: "65536 \<le> utf8_val4 b0 b1 b2 b3" "utf8_val4 b0 b1 b2 b3 < 1114112"
      using inp by (auto simp add: utf8_seq4_iff)
    let ?cp = "push_bit 18 (ucast b0 AND 0x07) OR push_bit 12 (ucast b1 AND 0x3F)
                 OR push_bit 6 (ucast b2 AND 0x3F) OR (ucast b3 AND 0x3F) :: uint32_t"
    note f = utf8_val4_facts [OF c]
    have d: "c_utf8b_to_codepoint inp eof = c_utf8_ok ?cp 4"
      unfolding i4 using c v by (rule dec_four)
    have "utf8b_bytes ?cp = [ucast (0xF0 OR (drop_bit 18 ?cp AND 0x07)),
            ucast (0x80 OR (drop_bit 12 ?cp AND 0x3F)),
            ucast (0x80 OR (drop_bit 6 ?cp AND 0x3F)), ucast (0x80 OR (?cp AND 0x3F))]"
      by (rule utf8b_bytes_4) (use v in \<open>simp_all only: unat_dec4\<close>)
    moreover have "ucast (0xF0 OR (drop_bit 18 ?cp AND 0x07)) = b0"
      by (rule octet_eqI) (simp only: enc_lead4 unat_dec4 f)
    moreover have "ucast (0x80 OR (drop_bit 12 ?cp AND 0x3F)) = b1"
      by (rule octet_eqI) (simp only: enc_cont12 unat_dec4 f)
    moreover have "ucast (0x80 OR (drop_bit 6 ?cp AND 0x3F)) = b2"
      by (rule octet_eqI) (simp only: enc_cont6 unat_dec4 f)
    moreover have "ucast (0x80 OR (?cp AND 0x3F)) = b3"
      by (rule octet_eqI) (simp only: enc_cont0 unat_dec4 f)
    ultimately show ?thesis unfolding d by (simp add: c_utf8_ok_def i4)
  next
    case esc
    let ?cp = "0xDC00 OR ucast b0 :: uint32_t"
    have d: "c_utf8b_to_codepoint inp eof = c_utf8_ok ?cp 1"
      unfolding inp using eof esc unfolding inp by (rule dec_escape)
    have u: "unat ?cp = 56320 + unat b0" by (simp add: unat_esc)
    have "utf8b_bytes ?cp = [ucast ?cp]"
      by (rule utf8b_bytes_1) (use esc(1) unat_octet_less [of b0] in \<open>simp add: u\<close>)
    moreover have "ucast ?cp = b0"
      by (rule octet_eqI) (use unat_octet_less [of b0] in \<open>simp add: unat_ucast_32_8 u esc_mod\<close>)
    ultimately show ?thesis unfolding d by (simp add: c_utf8_ok_def inp)
  qed
qed

section \<open>The loops\<close>

subsection \<open>The loop of the decoder\<close>

lemma dec_loop_eq:
  "c_bytes_utf8b_to_string_append_loop inp str str_pos str_end eof =
     (let us = take (nat (str_end - str_pos)) (utf8b_units inp eof) in
      (drop (sum_list (map (\<lambda>p. unat (pair_length p)) us)) inp,
       str\<lparr>Sstring_data := write_at (Sstring_data str) str_pos (map pair_codepoint us)\<rparr>,
       str_pos + int (length us)))"
proof (induction inp str str_pos str_end eof rule: c_bytes_utf8b_to_string_append_loop.induct)
  case (1 inp str str_pos str_end eof)
  define p where "p = c_utf8b_to_codepoint inp eof"
  show ?case
  proof (cases "length inp > 0 \<and> \<not> (pair_length p = 0 \<or> unat (pair_length p) > length inp)")
    case False
    then show ?thesis
      by (subst c_bytes_utf8b_to_string_append_loop.simps, subst utf8b_units.simps)
         (auto simp add: p_def Let_def)
  next
    case ok: True
    then have u: "utf8b_units inp eof = p # utf8b_units (drop (unat (pair_length p)) inp) eof"
      by (subst utf8b_units.simps) (simp add: p_def Let_def)
    show ?thesis
    proof (cases "str_pos \<ge> str_end")
      case True
      then show ?thesis
        by (subst c_bytes_utf8b_to_string_append_loop.simps) (simp add: Let_def)
    next
      case False
      then have n: "nat (str_end - str_pos) = Suc (nat (str_end - (str_pos + 1)))" by simp
      have ih: "c_bytes_utf8b_to_string_append_loop (drop (unat (pair_length p)) inp)
                  (Sstring_set str str_pos (pair_codepoint p)) (str_pos + 1) str_end eof = 
        (let us = take (nat (str_end - (str_pos + 1))) (utf8b_units (drop (unat (pair_length p)) inp) eof) in
      (drop (sum_list (map (\<lambda>p. unat (pair_length p)) us)) (drop (unat (pair_length p)) inp),
       (Sstring_set str str_pos (pair_codepoint p))\<lparr>Sstring_data := write_at (Sstring_data (Sstring_set str str_pos (pair_codepoint p))) (str_pos + 1) (map pair_codepoint us)\<rparr>,
       str_pos + 1 + int (length us)))"
        using ok False by (intro "1.IH") (auto simp add: p_def)
      have step: "c_bytes_utf8b_to_string_append_loop inp str str_pos str_end eof
           = c_bytes_utf8b_to_string_append_loop (drop (unat (pair_length p)) inp)
                  (Sstring_set str str_pos (pair_codepoint p)) (str_pos + 1) str_end eof"
        using ok False
        by (subst c_bytes_utf8b_to_string_append_loop.simps) (simp add: p_def [symmetric] Let_def)
      show ?thesis
        unfolding step ih u n
        by (simp add: Let_def Sstring_set_def add.commute)
    qed
  qed
qed


subsection \<open>The units of a byte sequence\<close>

lemma view_at_Suc: "view_at d p (Suc n) = d p # view_at d (p + 1) n"
proof -
  have "[0..<Suc n] = 0 # map Suc [0..<n]" by (simp add: upt_conv_Cons map_Suc_upt del: upt_Suc)
  then show ?thesis by (simp add: view_at_def comp_def add.assoc del: upt_Suc)
qed

lemma length_view_at: "length (view_at d p n) = n"
  by (simp add: view_at_def)

lemma nth_view_at: "k < n \<Longrightarrow> view_at d p n ! k = d (p + int k)"
  by (simp add: view_at_def)

lemma units_Cons:
  assumes "inp \<noteq> []" "eof \<noteq> Sfalse"
  shows "utf8b_units inp eof = c_utf8b_to_codepoint inp eof
           # utf8b_units (drop (unat (pair_length (c_utf8b_to_codepoint inp eof))) inp) eof"
  using dec_enc_unit [OF assms] assms(1)
  by (subst utf8b_units.simps) (simp add: Let_def unat_gt_0)

lemma units_concat:
  "eof \<noteq> Sfalse \<Longrightarrow>
   concat (map (\<lambda>p. utf8b_bytes (pair_codepoint p)) (utf8b_units inp eof)) = inp"
proof (induction inp eof rule: utf8b_units.induct)
  case (1 inp eof)
  show ?case
  proof (cases "inp = []")
    case True
    then show ?thesis by (subst utf8b_units.simps) simp
  next
    case False
    note u = dec_enc_unit [OF False "1.prems"]
    have "concat (map (\<lambda>p. utf8b_bytes (pair_codepoint p))
            (utf8b_units (drop (unat (pair_length (c_utf8b_to_codepoint inp eof))) inp) eof))
          = drop (unat (pair_length (c_utf8b_to_codepoint inp eof))) inp"
      using False u "1.prems" by (intro "1.IH") (auto simp add: unat_gt_0)
    then show ?thesis
      using u by (simp add: units_Cons [OF False "1.prems"])
  qed
qed

lemma units_sum:
  "eof \<noteq> Sfalse \<Longrightarrow> (\<Sum>p\<leftarrow>utf8b_units inp eof. unat (pair_length p)) = length inp"
proof (induction inp eof rule: utf8b_units.induct)
  case (1 inp eof)
  show ?case
  proof (cases "inp = []")
    case True
    then show ?thesis by (subst utf8b_units.simps) simp
  next
    case False
    note u = dec_enc_unit [OF False "1.prems"]
    have "(\<Sum>p\<leftarrow>utf8b_units (drop (unat (pair_length (c_utf8b_to_codepoint inp eof))) inp) eof.
             unat (pair_length p))
          = length (drop (unat (pair_length (c_utf8b_to_codepoint inp eof))) inp)"
      using False u "1.prems" by (intro "1.IH") (auto simp add: unat_gt_0)
    then show ?thesis
      using u by (simp add: units_Cons [OF False "1.prems"])
  qed
qed

lemma units_length_le: "length (utf8b_units inp eof) \<le> length inp"
proof (induction inp eof rule: utf8b_units.induct)
  case (1 inp eof)
  show ?case
  proof (cases "length inp > 0 \<and> \<not> (pair_length (c_utf8b_to_codepoint inp eof) = 0
                  \<or> unat (pair_length (c_utf8b_to_codepoint inp eof)) > length inp)")
    case False
    then show ?thesis by (subst utf8b_units.simps) (auto simp add: Let_def)
  next
    case True
    then have "length (utf8b_units (drop (unat (pair_length (c_utf8b_to_codepoint inp eof))) inp) eof)
               \<le> length (drop (unat (pair_length (c_utf8b_to_codepoint inp eof))) inp)"
      by (intro "1.IH") auto
    moreover have "0 < unat (pair_length (c_utf8b_to_codepoint inp eof))"
      using True by (simp add: unat_gt_0)
    ultimately show ?thesis using True
      by (subst utf8b_units.simps) (auto simp add: Let_def)
  qed
qed


subsection \<open>The loop of the encoder\<close>

lemma enc_run_0: "enc_run string ipos 0 = []"
  by (simp add: enc_run_def view_at_0)

lemma enc_run_Suc:
  "enc_run string ipos (Suc k) = utf8b_bytes (Sstring_data string ipos) @ enc_run string (ipos + 1) k"
  by (simp add: enc_run_def view_at_Suc)

lemma enc_loop_char:
  "\<exists>k \<le> nat (iend - ipos).
     snd (c_string_to_utf8b_append_loop string ipos iend out oend opos)
       = write_at out opos (enc_run string ipos k)
     \<and> opos + int (length (enc_run string ipos k)) \<le> max opos oend
     \<and> ((k = nat (iend - ipos)
          \<and> fst (c_string_to_utf8b_append_loop string ipos iend out oend opos)
              = Sfixnum (opos + int (length (enc_run string ipos k))))
        \<or> (k < nat (iend - ipos) \<and> oend \<le> opos + int (length (enc_run string ipos k))
          \<and> fst (c_string_to_utf8b_append_loop string ipos iend out oend opos) = Sfalse)
        \<or> (k < nat (iend - ipos) \<and> opos + int (length (enc_run string ipos k)) < oend
          \<and> fst (c_string_to_utf8b_append_loop string ipos iend out oend opos)
              = Schar (Sstring_data string (ipos + int k))
          \<and> (utf8b_bytes (Sstring_data string (ipos + int k)) = []
              \<or> oend < opos + int (length (enc_run string ipos k))
                          + int (length (utf8b_bytes (Sstring_data string (ipos + int k)))))))"
  (is "\<exists>k \<le> nat (iend - ipos). ?P string ipos iend out oend opos k")
proof (induction string ipos iend out oend opos rule: c_string_to_utf8b_append_loop.induct)
  case (1 string ipos iend out oend opos)
  let ?cp = "Sstring_data string ipos"
  let ?b = "utf8b_bytes ?cp"
  show ?case
  proof (cases "ipos < iend")
    case False
    then have "?P string ipos iend out oend opos 0"
      by (subst (1 2) c_string_to_utf8b_append_loop.simps) (simp add: enc_run_0)
    then show ?thesis by blast
  next
    case lt: True
    then have n: "nat (iend - ipos) = Suc (nat (iend - (ipos + 1)))" by simp
    show ?thesis
    proof (cases "opos \<ge> oend")
      case True
      then have "?P string ipos iend out oend opos 0"
        using lt by (subst (1 2) c_string_to_utf8b_append_loop.simps) (simp add: enc_run_0)
      then show ?thesis by blast
    next
      case room: False
      show ?thesis
      proof (cases "?b \<noteq> [] \<and> length ?b \<le> nat (oend - opos)")
        case False
        then have "?P string ipos iend out oend opos 0"
          using lt room
          by (subst (1 2) c_string_to_utf8b_append_loop.simps)
             (auto simp add: enc_run_0 Sstring_ref_def c_codepoint_to_utf8b_eq Let_def)
        then show ?thesis by blast
      next
        case fits: True
        have step: "c_string_to_utf8b_append_loop string ipos iend out oend opos
              = c_string_to_utf8b_append_loop string (ipos + 1) iend (write_at out opos ?b) oend
                  (opos + int (length ?b))"
          using lt room fits
          by (subst c_string_to_utf8b_append_loop.simps)
             (simp add: Sstring_ref_def c_codepoint_to_utf8b_eq Let_def)
        have "\<exists>k \<le> nat (iend - (ipos + 1)).
                ?P string (ipos + 1) iend (write_at out opos ?b) oend (opos + int (length ?b)) k"
          using lt room fits
          by (intro "1.IH" [where x = ?cp and xa = "(length ?b, write_at out opos ?b)"])
             (simp_all add: Sstring_ref_def c_codepoint_to_utf8b_eq Let_def)
        then obtain k where k: "k \<le> nat (iend - (ipos + 1))"
          and P: "?P string (ipos + 1) iend (write_at out opos ?b) oend (opos + int (length ?b)) k"
          by blast
        have "?P string ipos iend out oend opos (Suc k)"
          using P fits room unfolding step n
          by (auto simp add: enc_run_Suc write_at_append add.assoc)
        moreover have "Suc k \<le> nat (iend - ipos)" using k n by simp
        ultimately show ?thesis by blast
      qed
    qed
  qed
qed


lemma view_at_snoc: "view_at d p (Suc n) = view_at d p n @ [d (p + int n)]"
  by (simp add: view_at_def)

lemma enc_run_snoc:
  "enc_run string ipos (Suc k) = enc_run string ipos k @ utf8b_bytes (Sstring_data string (ipos + int k))"
  by (simp add: enc_run_def view_at_snoc)

lemma enc_run_mono: "k \<le> n \<Longrightarrow> length (enc_run string ipos k) \<le> length (enc_run string ipos n)"
  by (induction n) (auto simp add: enc_run_snoc le_Suc_eq)

lemma enc_run_next:
  assumes "k < n"
  shows "length (enc_run string ipos k) + length (utf8b_bytes (Sstring_data string (ipos + int k)))
         \<le> length (enc_run string ipos n)"
  using enc_run_mono [of "Suc k" n string ipos] assms by (simp add: enc_run_snoc)

lemma enc_loop_ok:
  assumes ne: "\<forall>j < nat (iend - ipos). utf8b_bytes (Sstring_data string (ipos + int j)) \<noteq> []"
    and fit: "opos + int (length (enc_run string ipos (nat (iend - ipos)))) \<le> oend"
  shows "c_string_to_utf8b_append_loop string ipos iend out oend opos
         = (Sfixnum (opos + int (length (enc_run string ipos (nat (iend - ipos))))),
            write_at out opos (enc_run string ipos (nat (iend - ipos))))"
proof -
  let ?n = "nat (iend - ipos)"
  let ?L = "c_string_to_utf8b_append_loop string ipos iend out oend opos"
  obtain k where k: "k \<le> ?n"
    and w: "snd ?L = write_at out opos (enc_run string ipos k)"
    and c: "(k = ?n \<and> fst ?L = Sfixnum (opos + int (length (enc_run string ipos k))))
        \<or> (k < ?n \<and> oend \<le> opos + int (length (enc_run string ipos k)))
        \<or> (k < ?n \<and> (utf8b_bytes (Sstring_data string (ipos + int k)) = []
              \<or> oend < opos + int (length (enc_run string ipos k))
                          + int (length (utf8b_bytes (Sstring_data string (ipos + int k))))))"
    using enc_loop_char [of iend ipos string out oend opos] by blast
  have "k = ?n"
  proof (rule ccontr)
    assume "k \<noteq> ?n"
    with k have lt: "k < ?n" by simp
    from ne lt have b: "utf8b_bytes (Sstring_data string (ipos + int k)) \<noteq> []" by simp
    then have "0 < length (utf8b_bytes (Sstring_data string (ipos + int k)))" by simp
    with enc_run_next [OF lt, of string ipos] fit c lt b show False by auto
  qed
  with c w show ?thesis by (auto simp add: prod_eq_iff)
qed

lemma units_bytes_nonempty:
  "eof \<noteq> Sfalse \<Longrightarrow> u \<in> set (utf8b_units inp eof) \<Longrightarrow> utf8b_bytes (pair_codepoint u) \<noteq> []"
proof (induction inp eof rule: utf8b_units.induct)
  case (1 inp eof)
  show ?case
  proof (cases "inp = []")
    case True
    with "1.prems" show ?thesis by (subst (asm) utf8b_units.simps) simp
  next
    case False
    note d = dec_enc_unit [OF False "1.prems"(1)]
    from "1.prems"(2) consider "u = c_utf8b_to_codepoint inp eof"
      | "u \<in> set (utf8b_units (drop (unat (pair_length (c_utf8b_to_codepoint inp eof))) inp) eof)"
      by (auto simp add: units_Cons [OF False "1.prems"(1)])
    then show ?thesis
    proof cases
      case 1
      then show ?thesis using d False by auto
    next
      case 2
      then show ?thesis using False d "1.prems"(1)
        by (intro "1.IH") (auto simp add: unat_gt_0)
    qed
  qed
qed


subsection \<open>The length-only decoder\<close>

lemma length_agree_unit:
  "eof \<noteq> Sfalse \<Longrightarrow>
   c_utf8b_to_codepoint_length inp = pair_length (c_utf8b_to_codepoint inp eof)"
  by (simp add: c_utf8b_to_codepoint_length_def c_utf8b_to_codepoint_def Let_def c_utf8_ok_def
        c_utf8_incomplete_def if_distrib [of pair_length]
      del: push_bit_and push_bit_or split del: if_split cong: if_cong)

lemma length_loop_eq:
  "eof \<noteq> Sfalse \<Longrightarrow>
   c_bytes_utf8b_to_string_length_loop inp ret = ret + length (utf8b_units inp eof)"
proof (induction inp ret rule: c_bytes_utf8b_to_string_length_loop.induct)
  case (1 bytes ret)
  show ?case
  proof (cases "bytes = []")
    case True
    then show ?thesis
      by (subst c_bytes_utf8b_to_string_length_loop.simps, subst utf8b_units.simps) simp
  next
    case False
    note d = dec_enc_unit [OF False "1.prems"]
    have a: "c_utf8b_to_codepoint_length bytes = pair_length (c_utf8b_to_codepoint bytes eof)"
      using "1.prems" by (rule length_agree_unit)
    have "c_bytes_utf8b_to_string_length_loop (drop (unat (c_utf8b_to_codepoint_length bytes)) bytes) (ret + 1)
          = ret + 1 + length (utf8b_units (drop (unat (c_utf8b_to_codepoint_length bytes)) bytes) eof)"
      using False d "1.prems" by (intro "1.IH") (auto simp add: a unat_gt_0)
    then show ?thesis using False d
      by (subst c_bytes_utf8b_to_string_length_loop.simps)
         (simp add: Let_def a units_Cons [OF False "1.prems"] unat_gt_0)
  qed
qed

lemma length_eq_units:
  "eof \<noteq> Sfalse \<Longrightarrow> c_bytes_utf8b_to_string_length inp = length (utf8b_units inp eof)"
  by (simp add: c_bytes_utf8b_to_string_length_def length_loop_eq)

subsection \<open>The append operations in terms of the loops\<close>

lemma units_take_sum_le:
  "(\<Sum>p\<leftarrow>take m (utf8b_units inp eof). unat (pair_length p)) \<le> length inp"
proof (induction inp eof arbitrary: m rule: utf8b_units.induct)
  case (1 inp eof)
  let ?p = "c_utf8b_to_codepoint inp eof"
  show ?case
  proof (cases "length inp > 0 \<and> \<not> (pair_length ?p = 0 \<or> unat (pair_length ?p) > length inp)")
    case False
    then show ?thesis by (subst utf8b_units.simps) (auto simp add: Let_def)
  next
    case True
    then have u: "utf8b_units inp eof = ?p # utf8b_units (drop (unat (pair_length ?p)) inp) eof"
      by (subst utf8b_units.simps) (simp add: Let_def)
    show ?thesis
    proof (cases m)
      case 0 then show ?thesis by simp
    next
      case (Suc m')
      have "(\<Sum>p\<leftarrow>take m' (utf8b_units (drop (unat (pair_length ?p)) inp) eof). unat (pair_length p))
            \<le> length (drop (unat (pair_length ?p)) inp)"
        using True by (intro "1.IH") auto
      then show ?thesis using True Suc by (auto simp add: u)
    qed
  qed
qed

lemma dec_append_eq:
  "c_bytes_utf8b_to_string_append inp str str_start str_end eof =
     (let us = take (nat (str_end - str_start)) (utf8b_units inp eof) in
      (\<lparr>byte_n = (\<Sum>p\<leftarrow>us. unat (pair_length p)), char_n = length us\<rparr>,
       str\<lparr>Sstring_data := write_at (Sstring_data str) str_start (map pair_codepoint us)\<rparr>))"
proof (cases "length inp = 0 \<or> str_start \<ge> str_end")
  case True
  then show ?thesis
    by (subst utf8b_units.simps) (auto simp add: c_bytes_utf8b_to_string_append_def c_sizepair_def)
next
  case False
  have "(\<Sum>p\<leftarrow>take (nat (str_end - str_start)) (utf8b_units inp eof). unat (pair_length p)) \<le> length inp"
    by (rule units_take_sum_le)
  then show ?thesis using False
    by (simp add: c_bytes_utf8b_to_string_append_def dec_loop_eq Let_def c_sizepair_def)
qed

lemma enc_append_in_range:
  assumes "0 \<le> start" "start \<le> end'" "end' \<le> Sstring_length string" "0 \<le> ostart"
  shows "c_string_to_utf8b_append string start end' bvec ostart =
         (fst (c_string_to_utf8b_append_loop string start end' (Sbytevector_data bvec)
                 (Sbytevector_length bvec) ostart),
          bvec\<lparr>Sbytevector_data :=
                 snd (c_string_to_utf8b_append_loop string start end' (Sbytevector_data bvec)
                        (Sbytevector_length bvec) ostart)\<rparr>)"
proof -
  have "(if start < Sstring_length string then start else Sstring_length string) = start"
    using assms by simp
  moreover have "(if end' < Sstring_length string then (if end' \<ge> start then end' else start)
                  else Sstring_length string) = end'"
    using assms by simp
  ultimately show ?thesis using assms
    by (simp add: c_string_to_utf8b_append_def Let_def split_beta)
qed

subsection \<open>Truncated tails\<close>

lemma len_single: "c_utf8b_to_codepoint_length [b] = 1"
  by (simp add: c_utf8b_to_codepoint_length_def Let_def)

lemma len_trunc2: "224 \<le> unat b0 \<Longrightarrow> c_utf8b_to_codepoint_length [b0, b1] = 1"
  by (simp add: c_utf8b_to_codepoint_length_def Let_def w2n)

lemma len_trunc3: "240 \<le> unat b0 \<Longrightarrow> c_utf8b_to_codepoint_length [b0, b1, b2] = 1"
  by (simp add: c_utf8b_to_codepoint_length_def Let_def w2n)

lemma len_cont_lead: "unat b0 < 194 \<Longrightarrow> c_utf8b_to_codepoint_length (b0 # rest) = 1"
  by (simp add: c_utf8b_to_codepoint_length_def Let_def w2n)

lemma count_step:
  "c_utf8b_to_codepoint_length (b # bs) = 1 \<Longrightarrow>
   c_bytes_utf8b_to_string_length_loop (b # bs) ret = c_bytes_utf8b_to_string_length_loop bs (ret + 1)"
  by (subst c_bytes_utf8b_to_string_length_loop.simps) simp

lemma count_Nil: "c_bytes_utf8b_to_string_length_loop [] ret = ret"
  by (subst c_bytes_utf8b_to_string_length_loop.simps) simp

subsection \<open>The range of the scalars decoded\<close>

lemma dec_unit_range:
  assumes ne: "inp \<noteq> []" and eof: "eof \<noteq> Sfalse"
  shows "pair_codepoint (c_utf8b_to_codepoint inp eof) < 0xD800
       \<or> (0xE000 \<le> pair_codepoint (c_utf8b_to_codepoint inp eof)
          \<and> pair_codepoint (c_utf8b_to_codepoint inp eof) < 0x110000)
       \<or> (0x80 \<le> hd inp \<and> pair_codepoint (c_utf8b_to_codepoint inp eof) = 0xDC00 OR ucast (hd inp))"
proof -
  from ne obtain b0 rest where inp: "inp = b0 # rest" by (cases inp) auto
  consider (ascii) "unat b0 < 128" | (two) "utf8_seq2 inp" | (three) "utf8_seq3 inp" | (four) "utf8_seq4 inp"
    | (esc) "128 \<le> unat b0" "\<not> utf8_seq2 inp" "\<not> utf8_seq3 inp" "\<not> utf8_seq4 inp"
    by linarith
  then show ?thesis
  proof cases
    case ascii
    then show ?thesis by (simp add: inp dec_ascii c_utf8_ok_def w2n)
  next
    case two
    then obtain b1 rest' where i2: "inp = b0 # b1 # rest'"
      and c: "194 \<le> unat b0" "unat b0 < 224" "128 \<le> unat b1" "unat b1 < 192"
      using inp by (auto simp add: utf8_seq2_iff)
    have "utf8_val2 b0 b1 < 55296" using utf8_val2_facts(2) [OF c] by simp
    then show ?thesis
      by (simp add: i2 dec_two [OF c] c_utf8_ok_def word_less_nat_alt unat_dec2 del: push_bit_and)
  next
    case three
    then obtain b1 b2 rest' where i3: "inp = b0 # b1 # b2 # rest'"
      and c: "224 \<le> unat b0" "unat b0 < 240" "128 \<le> unat b1" "unat b1 < 192"
             "128 \<le> unat b2" "unat b2 < 192"
      and v: "2048 \<le> utf8_val3 b0 b1 b2" "utf8_val3 b0 b1 b2 < 55296 \<or> 57344 \<le> utf8_val3 b0 b1 b2"
      using inp by (auto simp add: utf8_seq3_iff)
    have "utf8_val3 b0 b1 b2 < 1114112" using utf8_val3_facts(1) [OF c] by simp
    with v(2) show ?thesis
      by (auto simp add: i3 dec_three [OF c v] c_utf8_ok_def word_less_nat_alt word_le_nat_alt
            unat_dec3 simp del: push_bit_and)
  next
    case four
    then obtain b1 b2 b3 rest' where i4: "inp = b0 # b1 # b2 # b3 # rest'"
      and c: "240 \<le> unat b0" "unat b0 \<le> 244" "128 \<le> unat b1" "unat b1 < 192"
             "128 \<le> unat b2" "unat b2 < 192" "128 \<le> unat b3" "unat b3 < 192"
      and v: "65536 \<le> utf8_val4 b0 b1 b2 b3" "utf8_val4 b0 b1 b2 b3 < 1114112"
      using inp by (auto simp add: utf8_seq4_iff)
    from v show ?thesis
      by (simp add: i4 dec_four [OF c v] c_utf8_ok_def word_less_nat_alt word_le_nat_alt
            unat_dec4 del: push_bit_and)
  next
    case esc
    have "c_utf8b_to_codepoint inp eof = c_utf8_ok (0xDC00 OR ucast b0) 1"
      unfolding inp using eof esc unfolding inp by (rule dec_escape)
    then show ?thesis using esc(1) by (simp add: inp c_utf8_ok_def word_le_nat_alt)
  qed
qed

lemma units_range:
  "eof \<noteq> Sfalse \<Longrightarrow> u \<in> set (utf8b_units inp eof) \<Longrightarrow>
   pair_codepoint u < 0xD800 \<or> (0xE000 \<le> pair_codepoint u \<and> pair_codepoint u < 0x110000)
   \<or> (\<exists>b \<in> set inp. 0x80 \<le> b \<and> pair_codepoint u = 0xDC00 OR ucast b)"
proof (induction inp eof rule: utf8b_units.induct)
  case (1 inp eof)
  show ?case
  proof (cases "inp = []")
    case True
    with "1.prems" show ?thesis by (subst (asm) utf8b_units.simps) simp
  next
    case False
    note d = dec_enc_unit [OF False "1.prems"(1)]
    let ?k = "unat (pair_length (c_utf8b_to_codepoint inp eof))"
    from "1.prems"(2) consider "u = c_utf8b_to_codepoint inp eof"
      | "u \<in> set (utf8b_units (drop ?k inp) eof)"
      by (auto simp add: units_Cons [OF False "1.prems"(1)])
    then show ?thesis
    proof cases
      case 1
      have "hd inp \<in> set inp" using False by simp
      with dec_unit_range [OF False "1.prems"(1)] 1 show ?thesis by blast
    next
      case 2
      then have "pair_codepoint u < 0xD800 \<or> (0xE000 \<le> pair_codepoint u \<and> pair_codepoint u < 0x110000)
        \<or> (\<exists>b \<in> set (drop ?k inp). 0x80 \<le> b \<and> pair_codepoint u = 0xDC00 OR ucast b)"
        using False d "1.prems"(1) by (intro "1.IH") (auto simp add: unat_gt_0)
      then show ?thesis by (meson in_set_dropD)
    qed
  qed
qed

lemma escape_range:
  "0x80 \<le> (b :: octet) \<Longrightarrow>
   0xDC80 \<le> (0xDC00 OR ucast b :: uint32_t) \<and> (0xDC00 OR ucast b :: uint32_t) \<le> 0xDCFF"
  using unat_octet_less [of b] by (simp add: word_le_nat_alt unat_esc)

section \<open>Encoding one scalar, then decoding it\<close>

lemma n2_facts:
  fixes n :: nat
  assumes "128 \<le> n" "n < 2048"
  shows "194 \<le> 192 + n div 64 mod 32" "192 + n div 64 mod 32 < 224"
        "128 \<le> 128 + n mod 64" "128 + n mod 64 < 192"
        "(192 + n div 64 mod 32) mod 32 * 64 + (128 + n mod 64) mod 64 = n"
proof -
  have a: "n div 64 < 32" "2 \<le> n div 64" using assms by linarith+
  then have m: "n div 64 mod 32 = n div 64" by simp
  show "194 \<le> 192 + n div 64 mod 32" "192 + n div 64 mod 32 < 224" using a by (simp_all add: m)
  show "128 \<le> 128 + n mod 64" "128 + n mod 64 < 192" by simp_all
  have "(192 + n div 64) mod 32 = n div 64" using a by (simp add: lead2_mod)
  moreover have "(128 + n mod 64) mod 64 = n mod 64" by (simp add: cont_mod)
  ultimately show "(192 + n div 64 mod 32) mod 32 * 64 + (128 + n mod 64) mod 64 = n"
    by (simp only: m recompose2)
qed

lemma n3_facts:
  fixes n :: nat
  assumes "2048 \<le> n" "n < 65536"
  shows "224 \<le> 224 + n div 4096 mod 16" "224 + n div 4096 mod 16 < 240"
        "128 \<le> 128 + n div 64 mod 64" "128 + n div 64 mod 64 < 192"
        "128 \<le> 128 + n mod 64" "128 + n mod 64 < 192"
        "(224 + n div 4096 mod 16) mod 16 * 4096 + (128 + n div 64 mod 64) mod 64 * 64
           + (128 + n mod 64) mod 64 = n"
proof -
  have a: "n div 4096 < 16" using assms by linarith
  then have m: "n div 4096 mod 16 = n div 4096" by simp
  show "224 \<le> 224 + n div 4096 mod 16" "224 + n div 4096 mod 16 < 240" using a by (simp_all add: m)
  show "128 \<le> 128 + n div 64 mod 64" "128 + n div 64 mod 64 < 192"
       "128 \<le> 128 + n mod 64" "128 + n mod 64 < 192" by simp_all
  have "(224 + n div 4096) mod 16 = n div 4096" using a by (simp add: lead3_mod)
  moreover have "(128 + n div 64 mod 64) mod 64 = n div 64 mod 64" by (simp add: cont_mod)
  moreover have "(128 + n mod 64) mod 64 = n mod 64" by (simp add: cont_mod)
  ultimately show "(224 + n div 4096 mod 16) mod 16 * 4096 + (128 + n div 64 mod 64) mod 64 * 64
           + (128 + n mod 64) mod 64 = n"
    by (simp only: m recompose3)
qed

lemma n4_facts:
  fixes n :: nat
  assumes "65536 \<le> n" "n < 1114112"
  shows "240 \<le> 240 + n div 262144 mod 8" "240 + n div 262144 mod 8 \<le> 244"
        "128 \<le> 128 + n div 4096 mod 64" "128 + n div 4096 mod 64 < 192"
        "128 \<le> 128 + n div 64 mod 64" "128 + n div 64 mod 64 < 192"
        "128 \<le> 128 + n mod 64" "128 + n mod 64 < 192"
        "(240 + n div 262144 mod 8) mod 8 * 262144 + (128 + n div 4096 mod 64) mod 64 * 4096
           + (128 + n div 64 mod 64) mod 64 * 64 + (128 + n mod 64) mod 64 = n"
proof -
  have a: "n div 262144 \<le> 4" using assms by linarith
  then have m: "n div 262144 mod 8 = n div 262144" by simp
  show "240 \<le> 240 + n div 262144 mod 8" "240 + n div 262144 mod 8 \<le> 244" using a by (simp_all add: m)
  show "128 \<le> 128 + n div 4096 mod 64" "128 + n div 4096 mod 64 < 192"
       "128 \<le> 128 + n div 64 mod 64" "128 + n div 64 mod 64 < 192"
       "128 \<le> 128 + n mod 64" "128 + n mod 64 < 192" by simp_all
  have "(240 + n div 262144) mod 8 = n div 262144" using a by (simp add: lead4_mod)
  moreover have "(128 + n div 4096 mod 64) mod 64 = n div 4096 mod 64" by (simp add: cont_mod)
  moreover have "(128 + n div 64 mod 64) mod 64 = n div 64 mod 64" by (simp add: cont_mod)
  moreover have "(128 + n mod 64) mod 64 = n mod 64" by (simp add: cont_mod)
  ultimately show "(240 + n div 262144 mod 8) mod 8 * 262144 + (128 + n div 4096 mod 64) mod 64 * 4096
           + (128 + n div 64 mod 64) mod 64 * 64 + (128 + n mod 64) mod 64 = n"
    by (simp only: m recompose4)
qed


lemma unat_drop_consts:
  "unat (drop_bit 6 w) = unat w div 64" "unat (drop_bit 12 w) = unat w div 4096"
  "unat (drop_bit 18 w) = unat w div 262144" for w :: uint32_t
  by (simp_all add: unat_drop_bit_nat)

lemma u32_eqI: "unat (x :: uint32_t) = unat y \<Longrightarrow> x = y"
  by (simp add: word_unat_eq_iff)

lemma enc_dec_unit:
  assumes legal: "unat cp < 55296 \<or> (57344 \<le> unat cp \<and> unat cp < 1114112)"
  shows "utf8b_bytes cp \<noteq> []
       \<and> int (length (utf8b_bytes cp)) = c_codepoint_to_utf8b_length cp
       \<and> c_utf8b_to_codepoint (utf8b_bytes cp @ rest) eof
           = c_utf8_ok cp (of_nat (length (utf8b_bytes cp)))"
proof -
  let ?n = "unat cp"
  consider (one) "?n < 128" | (two) "128 \<le> ?n" "?n < 2048"
    | (three) "2048 \<le> ?n" "?n < 65536" "?n < 55296 \<or> 57344 \<le> ?n"
    | (four) "65536 \<le> ?n" "?n < 1114112"
    using legal by linarith
  then show ?thesis
  proof cases
    case one
    then have b: "utf8b_bytes cp = [ucast cp]" by (intro utf8b_bytes_1) simp
    have u: "unat (ucast cp :: octet) = ?n" using one by (simp add: unat_ucast_32_8)
    have "ucast (ucast cp :: octet) = cp"
      by (rule u32_eqI) (simp add: unat_ucast_8_32 u)
    then show ?thesis using one
      by (simp add: b dec_ascii u c_codepoint_to_utf8b_length_def word_less_nat_alt)
  next
    case two
    let ?b0 = "ucast (0xC0 OR (drop_bit 6 cp AND 0x1F)) :: octet"
    let ?b1 = "ucast (0x80 OR (cp AND 0x3F)) :: octet"
    note f = n2_facts [OF two]
    have b: "utf8b_bytes cp = [?b0, ?b1]" using two by (rule utf8b_bytes_2)
    have d: "c_utf8b_to_codepoint (?b0 # ?b1 # rest) eof
             = c_utf8_ok (push_bit 6 (ucast ?b0 AND 0x1F) OR (ucast ?b1 AND 0x3F)) 2"
      by (rule dec_two) (simp_all only: enc_lead2 enc_cont0 f)
    have "push_bit 6 (ucast ?b0 AND 0x1F) OR (ucast ?b1 AND 0x3F) = cp"
      by (rule u32_eqI) (simp only: unat_dec2 utf8_val2_def enc_lead2 enc_cont0 f)
    then show ?thesis using two
      by (simp add: b d c_codepoint_to_utf8b_length_def word_less_nat_alt word_le_nat_alt
            del: push_bit_and)
  next
    case three
    let ?b0 = "ucast (0xE0 OR (drop_bit 12 cp AND 0x0F)) :: octet"
    let ?b1 = "ucast (0x80 OR (drop_bit 6 cp AND 0x3F)) :: octet"
    let ?b2 = "ucast (0x80 OR (cp AND 0x3F)) :: octet"
    note f = n3_facts [OF three(1,2)]
    have b: "utf8b_bytes cp = [?b0, ?b1, ?b2]" using three by (intro utf8b_bytes_3) auto
    have v: "utf8_val3 ?b0 ?b1 ?b2 = ?n"
      by (simp only: utf8_val3_def enc_lead3 enc_cont6 enc_cont0 unat_drop_consts f)
    have d: "c_utf8b_to_codepoint (?b0 # ?b1 # ?b2 # rest) eof
             = c_utf8_ok (push_bit 12 (ucast ?b0 AND 0x0F) OR push_bit 6 (ucast ?b1 AND 0x3F)
                          OR (ucast ?b2 AND 0x3F)) 3"
      by (rule dec_three) (use three in \<open>simp_all only: enc_lead3 enc_cont6 enc_cont0 unat_drop_consts f v\<close>)
    have "push_bit 12 (ucast ?b0 AND 0x0F) OR push_bit 6 (ucast ?b1 AND 0x3F) OR (ucast ?b2 AND 0x3F) = cp"
      by (rule u32_eqI) (simp only: unat_dec3 v)
    then show ?thesis using three
      by (auto simp add: b d c_codepoint_to_utf8b_length_def word_less_nat_alt word_le_nat_alt
            simp del: push_bit_and push_bit_or)
  next
    case four
    let ?b0 = "ucast (0xF0 OR (drop_bit 18 cp AND 0x07)) :: octet"
    let ?b1 = "ucast (0x80 OR (drop_bit 12 cp AND 0x3F)) :: octet"
    let ?b2 = "ucast (0x80 OR (drop_bit 6 cp AND 0x3F)) :: octet"
    let ?b3 = "ucast (0x80 OR (cp AND 0x3F)) :: octet"
    note f = n4_facts [OF four]
    have b: "utf8b_bytes cp = [?b0, ?b1, ?b2, ?b3]" using four by (rule utf8b_bytes_4)
    have v: "utf8_val4 ?b0 ?b1 ?b2 ?b3 = ?n"
      by (simp only: utf8_val4_def enc_lead4 enc_cont12 enc_cont6 enc_cont0 unat_drop_consts f)
    have d: "c_utf8b_to_codepoint (?b0 # ?b1 # ?b2 # ?b3 # rest) eof
             = c_utf8_ok (push_bit 18 (ucast ?b0 AND 0x07) OR push_bit 12 (ucast ?b1 AND 0x3F)
                          OR push_bit 6 (ucast ?b2 AND 0x3F) OR (ucast ?b3 AND 0x3F)) 4"
      by (rule dec_four) (use four in \<open>simp_all only: enc_lead4 enc_cont12 enc_cont6 enc_cont0 unat_drop_consts f v\<close>)
    have "push_bit 18 (ucast ?b0 AND 0x07) OR push_bit 12 (ucast ?b1 AND 0x3F)
            OR push_bit 6 (ucast ?b2 AND 0x3F) OR (ucast ?b3 AND 0x3F) = cp"
      by (rule u32_eqI) (simp only: unat_dec4 v)
    then show ?thesis using four
      by (simp add: b d c_codepoint_to_utf8b_length_def word_less_nat_alt word_le_nat_alt
            del: push_bit_and push_bit_or)
  qed
qed


lemma units_of_encoding:
  assumes "\<forall>cp \<in> set S. unat cp < 55296 \<or> (57344 \<le> unat cp \<and> unat cp < 1114112)"
  shows "map pair_codepoint (utf8b_units (concat (map utf8b_bytes S)) eof) = S"
  using assms
proof (induction S)
  case Nil
  show ?case by (subst utf8b_units.simps) simp
next
  case (Cons cp S)
  let ?tail = "concat (map utf8b_bytes S)"
  let ?len = "length (utf8b_bytes cp)"
  from Cons.prems have legal: "unat cp < 55296 \<or> (57344 \<le> unat cp \<and> unat cp < 1114112)" by simp
  note e = enc_dec_unit [OF legal, of ?tail eof]
  from e legal have l4: "0 < ?len" "?len \<le> 4"
    by (auto simp add: c_codepoint_to_utf8b_length_def split: if_splits)
  then have un: "unat (of_nat ?len :: uint32_t) = ?len" by (simp add: unat_of_nat)
  have "utf8b_units (utf8b_bytes cp @ ?tail) eof
        = c_utf8_ok cp (of_nat ?len) # utf8b_units (drop ?len (utf8b_bytes cp @ ?tail)) eof"
    using e l4
    by (subst utf8b_units.simps) (simp add: Let_def c_utf8_ok_def un unat_eq_0 [symmetric] del: unat_eq_0)
  then show ?case using Cons by (simp add: c_utf8_ok_def)
qed

lemma enc_length_loop_eq:
  assumes "\<forall>k < nat (iend - i). unat (Sstring_data string (i + int k)) < 55296
             \<or> (57344 \<le> unat (Sstring_data string (i + int k))
                \<and> unat (Sstring_data string (i + int k)) < 1114112)"
  shows "c_string_to_utf8b_length_loop string i iend result
         = result + int (length (enc_run string i (nat (iend - i))))"
  using assms
proof (induction string i iend result rule: c_string_to_utf8b_length_loop.induct)
  case (1 string i iend result)
  show ?case
  proof (cases "i < iend")
    case False
    then show ?thesis by (subst c_string_to_utf8b_length_loop.simps) (simp add: enc_run_0)
  next
    case True
    then have n: "nat (iend - i) = Suc (nat (iend - (i + 1)))" by simp
    from "1.prems" [rule_format, of 0] True
    have legal: "unat (Sstring_data string i) < 55296
       \<or> (57344 \<le> unat (Sstring_data string i) \<and> unat (Sstring_data string i) < 1114112)"
      by simp
    have rest: "\<forall>k < nat (iend - (i + 1)). unat (Sstring_data string (i + 1 + int k)) < 55296
             \<or> (57344 \<le> unat (Sstring_data string (i + 1 + int k))
                \<and> unat (Sstring_data string (i + 1 + int k)) < 1114112)"
    proof (intro allI impI)
      fix k assume "k < nat (iend - (i + 1))"
      then have "Suc k < nat (iend - i)" using n by simp
      from "1.prems" [rule_format, OF this] show "unat (Sstring_data string (i + 1 + int k)) < 55296
             \<or> (57344 \<le> unat (Sstring_data string (i + 1 + int k))
                \<and> unat (Sstring_data string (i + 1 + int k)) < 1114112)"
        by (simp add: add.assoc)
    qed
    have ih: "c_string_to_utf8b_length_loop string (i + 1) iend
                 (result + c_codepoint_to_utf8b_length (Sstring_ref string i))
              = result + c_codepoint_to_utf8b_length (Sstring_ref string i)
                + int (length (enc_run string (i + 1) (nat (iend - (i + 1)))))"
      using True rest by (intro "1.IH") simp_all
    show ?thesis
      using True enc_dec_unit [OF legal, of "[]" Strue]
      by (subst c_string_to_utf8b_length_loop.simps)
         (simp add: ih [unfolded Sstring_ref_def] n enc_run_Suc Sstring_ref_def)
  qed
qed


lemma enc_length_in_range:
  assumes legal: "\<forall>k < nat (end' - start). unat (Sstring_data string (start + int k)) < 55296
             \<or> (57344 \<le> unat (Sstring_data string (start + int k))
                \<and> unat (Sstring_data string (start + int k)) < 1114112)"
    and rng: "0 \<le> start" "start \<le> end'" "end' \<le> Sstring_length string"
  shows "c_string_to_utf8b_length string start end'
         = int (length (enc_run string start (nat (end' - start))))"
proof (cases "start < end'")
  case False
  then show ?thesis using rng by (simp add: c_string_to_utf8b_length_def enc_run_0)
next
  case True
  then have "(if end' < Sstring_length string then end' else Sstring_length string) = end'"
    using rng by simp
  then show ?thesis using True rng enc_length_loop_eq [OF legal, of 0]
    by (simp add: c_string_to_utf8b_length_def Let_def)
qed

subsection \<open>What the encoder has written when it returns\<close>

lemma enc_append_char:
  "\<exists>k. Sbytevector_data (snd (c_string_to_utf8b_append string start end' bvec ostart))
         = write_at (Sbytevector_data bvec) ostart
             (enc_run string (min start (Sstring_length string)) k)
     \<and> ostart + int (length (enc_run string (min start (Sstring_length string)) k))
         \<le> max ostart (Sbytevector_length bvec)
     \<and> (\<forall>p. fst (c_string_to_utf8b_append string start end' bvec ostart) = Sfixnum p \<longrightarrow>
            p = ostart + int (length (enc_run string (min start (Sstring_length string)) k)))"
proof (cases "start \<ge> 0 \<and> end' \<ge> start \<and> ostart \<ge> 0")
  case False
  then have "c_string_to_utf8b_append string start end' bvec ostart = (Sfalse, bvec)"
    by (auto simp add: c_string_to_utf8b_append_def)
  then show ?thesis by (intro exI [of _ 0]) (simp add: enc_run_0)
next
  case True
  let ?ilen = "Sstring_length string"
  let ?ipos = "if start < ?ilen then start else ?ilen"
  let ?iend = "if end' < ?ilen then (if end' \<ge> start then end' else start) else ?ilen"
  let ?L = "c_string_to_utf8b_append_loop string ?ipos ?iend (Sbytevector_data bvec)
              (Sbytevector_length bvec) ostart"
  have R: "c_string_to_utf8b_append string start end' bvec ostart
           = (fst ?L, bvec\<lparr>Sbytevector_data := snd ?L\<rparr>)"
    using True by (simp add: c_string_to_utf8b_append_def Let_def split_beta)
  have ip: "?ipos = min start ?ilen" by simp
  obtain k where "snd ?L = write_at (Sbytevector_data bvec) ostart (enc_run string ?ipos k)"
    and "ostart + int (length (enc_run string ?ipos k)) \<le> max ostart (Sbytevector_length bvec)"
    and "(k = nat (?iend - ?ipos) \<and> fst ?L = Sfixnum (ostart + int (length (enc_run string ?ipos k))))
        \<or> fst ?L = Sfalse \<or> fst ?L = Schar (Sstring_data string (?ipos + int k))"
    using enc_loop_char [of ?iend ?ipos string "Sbytevector_data bvec" "Sbytevector_length bvec" ostart]
    by blast
  then show ?thesis unfolding R ip by (intro exI [of _ k]) auto
qed

lemma enc_append_units:
  assumes rng: "0 \<le> start" "start \<le> end'" "end' \<le> Sstring_length string" "0 \<le> ostart"
  shows "\<exists>k \<le> nat (end' - start).
     Sbytevector_data (snd (c_string_to_utf8b_append string start end' bvec ostart))
       = write_at (Sbytevector_data bvec) ostart (enc_run string start k)
     \<and> ((k = nat (end' - start)
          \<and> fst (c_string_to_utf8b_append string start end' bvec ostart)
              = Sfixnum (ostart + int (length (enc_run string start k))))
        \<or> (k < nat (end' - start)
          \<and> (fst (c_string_to_utf8b_append string start end' bvec ostart) = Sfalse
              \<or> fst (c_string_to_utf8b_append string start end' bvec ostart)
                  = Schar (Sstring_ref string (start + int k)))
          \<and> (utf8b_bytes (Sstring_ref string (start + int k)) = []
              \<or> Sbytevector_length bvec
                  < ostart + int (length (enc_run string start k))
                      + int (length (utf8b_bytes (Sstring_ref string (start + int k)))))))"
proof -
  let ?L = "c_string_to_utf8b_append_loop string start end' (Sbytevector_data bvec)
              (Sbytevector_length bvec) ostart"
  have R: "c_string_to_utf8b_append string start end' bvec ostart
           = (fst ?L, bvec\<lparr>Sbytevector_data := snd ?L\<rparr>)"
    using rng by (rule enc_append_in_range)
  obtain k where k: "k \<le> nat (end' - start)"
    and w: "snd ?L = write_at (Sbytevector_data bvec) ostart (enc_run string start k)"
    and c: "(k = nat (end' - start)
          \<and> fst ?L = Sfixnum (ostart + int (length (enc_run string start k))))
        \<or> (k < nat (end' - start)
          \<and> Sbytevector_length bvec \<le> ostart + int (length (enc_run string start k))
          \<and> fst ?L = Sfalse)
        \<or> (k < nat (end' - start)
          \<and> fst ?L = Schar (Sstring_data string (start + int k))
          \<and> (utf8b_bytes (Sstring_data string (start + int k)) = []
              \<or> Sbytevector_length bvec < ostart + int (length (enc_run string start k))
                          + int (length (utf8b_bytes (Sstring_data string (start + int k))))))"
    using enc_loop_char [of end' start string "Sbytevector_data bvec" "Sbytevector_length bvec" ostart]
    by blast
  have pos: "utf8b_bytes (Sstring_data string (start + int k)) \<noteq> [] \<Longrightarrow>
        0 < int (length (utf8b_bytes (Sstring_data string (start + int k))))" by simp
  have c': "(k = nat (end' - start)
          \<and> fst ?L = Sfixnum (ostart + int (length (enc_run string start k))))
        \<or> (k < nat (end' - start)
          \<and> (fst ?L = Sfalse \<or> fst ?L = Schar (Sstring_data string (start + int k)))
          \<and> (utf8b_bytes (Sstring_data string (start + int k)) = []
              \<or> Sbytevector_length bvec < ostart + int (length (enc_run string start k))
                          + int (length (utf8b_bytes (Sstring_data string (start + int k))))))"
  proof -
    from c consider
        (ok) "k = nat (end' - start)"
             "fst ?L = Sfixnum (ostart + int (length (enc_run string start k)))"
      | (full) "k < nat (end' - start)"
             "Sbytevector_length bvec \<le> ostart + int (length (enc_run string start k))"
             "fst ?L = Sfalse"
      | (stop) "k < nat (end' - start)" "fst ?L = Schar (Sstring_data string (start + int k))"
             "utf8b_bytes (Sstring_data string (start + int k)) = []
              \<or> Sbytevector_length bvec < ostart + int (length (enc_run string start k))
                          + int (length (utf8b_bytes (Sstring_data string (start + int k))))"
      by blast
    then show ?thesis
    proof cases
      case ok
      then show ?thesis by blast
    next
      case full
      have "utf8b_bytes (Sstring_data string (start + int k)) = []
              \<or> Sbytevector_length bvec < ostart + int (length (enc_run string start k))
                          + int (length (utf8b_bytes (Sstring_data string (start + int k))))"
        using full(2) pos by linarith
      with full show ?thesis by blast
    next
      case stop
      then show ?thesis by blast
    qed
  qed
  show ?thesis
    using k w c' unfolding R Sstring_ref_def by (intro exI [of _ k]) simp
qed

lemma dec_append_count:
  "char_n (fst (c_bytes_utf8b_to_string_append inp str str_start str_end eof))
     = min (nat (str_end - str_start)) (length (utf8b_units inp eof))"
  by (simp add: dec_append_eq Let_def min.commute)

subsection \<open>Bare surrogates, and two evaluations\<close>

lemma surrogate_unit:
  assumes "(0xD800 \<le> cp \<and> cp < 0xDC80) \<or> (0xDD00 \<le> cp \<and> cp < 0xE000)"
  shows "c_codepoint_to_utf8b_length cp = 3" "c_codepoint_to_utf8b cp out opos out_len = (0, out)"
  using assms
  by (auto simp add: c_codepoint_to_utf8b_length_def c_codepoint_to_utf8b_def
        word_less_nat_alt word_le_nat_alt)

lemma minus_one_u32: "(- 1 :: uint32_t) = 0xFFFFFFFF"
  by simp

lemma length_loop_empty: "c_string_to_utf8b_length_loop string i i r = r"
  by (subst c_string_to_utf8b_length_loop.simps) simp

subsection \<open>Evaluation on concrete inputs\<close>

lemmas loop_simps = c_bytes_utf8b_to_string_append_loop.simps c_bytes_utf8b_to_string_length_loop.simps
  c_string_to_utf8b_append_loop.simps c_string_to_utf8b_length_loop.simps

lemmas eval_defs = c_bytes_utf8b_to_string_append_def c_bytes_utf8b_to_string_length_def
  c_string_to_utf8b_append_def c_string_to_utf8b_length_def c_sizepair_def
  c_utf8b_to_codepoint_def c_utf8b_to_codepoint_length_def c_utf8_ok_def c_utf8_incomplete_def
  c_codepoint_to_utf8b_def c_codepoint_to_utf8b_length_def Sstring_ref_def Sstring_set_def

section \<open>Claims\<close>

text \<open>
  C1. Byte-level round trip: for every byte sequence \<open>B\<close>, valid UTF-8 or not, decoding \<open>B\<close>
  with end of input asserted into a string with room for its scalars, and then encoding the
  scalars written into a bytevector with room for \<open>length B\<close> bytes, consumes all of \<open>B\<close>,
  succeeds, and writes exactly the bytes of \<open>B\<close>.
\<close>

theorem utf8b_bytes_roundtrip:
  assumes eof: "eof \<noteq> Sfalse"
    and dec: "c_bytes_utf8b_to_string_append B str str_start str_end eof = (ret, str')"
    and s0: "0 \<le> str_start"
    and cap: "str_start + int (c_bytes_utf8b_to_string_length B) \<le> str_end"
    and slen: "str_end \<le> Sstring_length str"
    and o0: "0 \<le> ostart"
    and ocap: "ostart + int (length B) \<le> Sbytevector_length bvec"
  shows "byte_n ret = length B
       \<and> char_n ret = c_bytes_utf8b_to_string_length B
       \<and> fst (c_string_to_utf8b_append str' str_start (str_start + int (char_n ret)) bvec ostart)
           = Sfixnum (ostart + int (length B))
       \<and> view_at (Sbytevector_data
             (snd (c_string_to_utf8b_append str' str_start (str_start + int (char_n ret)) bvec ostart)))
             ostart (length B) = B"
proof -
  let ?us = "utf8b_units B eof"
  let ?S = "map pair_codepoint ?us"
  have n: "c_bytes_utf8b_to_string_length B = length ?us" using eof by (rule length_eq_units)
  with cap have tk: "take (nat (str_end - str_start)) ?us = ?us" by simp
  from dec have ret: "ret = \<lparr>byte_n = length B, char_n = length ?us\<rparr>"
    and str': "str' = str\<lparr>Sstring_data := write_at (Sstring_data str) str_start ?S\<rparr>"
    by (simp_all add: dec_append_eq Let_def tk units_sum [OF eof])
  have dat: "Sstring_data str' = write_at (Sstring_data str) str_start ?S"
    and len: "Sstring_length str' = Sstring_length str"
    by (simp_all add: str')
  have nn: "nat (str_start + int (length ?us) - str_start) = length ?S" by simp
  have v: "view_at (Sstring_data str') str_start (length ?S) = ?S"
    unfolding dat by (rule view_at_write_at)
  have run: "enc_run str' str_start (length ?S) = B"
    unfolding enc_run_def v using units_concat [OF eof, of B] by (simp add: comp_def)
  have ne: "\<forall>j < length ?S. utf8b_bytes (Sstring_data str' (str_start + int j)) \<noteq> []"
  proof (intro allI impI)
    fix j assume j: "j < length ?S"
    then have "Sstring_data str' (str_start + int j) = ?S ! j"
      unfolding dat by (rule write_at_inside)
    also have "\<dots> = pair_codepoint (?us ! j)" using j by simp
    finally show "utf8b_bytes (Sstring_data str' (str_start + int j)) \<noteq> []"
      using units_bytes_nonempty [OF eof, of "?us ! j" B] j by simp
  qed
  have loop: "c_string_to_utf8b_append_loop str' str_start (str_start + int (length ?us))
                (Sbytevector_data bvec) (Sbytevector_length bvec) ostart
              = (Sfixnum (ostart + int (length B)), write_at (Sbytevector_data bvec) ostart B)"
    using enc_loop_ok [of "str_start + int (length ?us)" str_start str' ostart
                          "Sbytevector_length bvec" "Sbytevector_data bvec"]
          ne ocap
    by (simp only: nn run)
  have app: "c_string_to_utf8b_append str' str_start (str_start + int (length ?us)) bvec ostart
             = (Sfixnum (ostart + int (length B)),
                bvec\<lparr>Sbytevector_data := write_at (Sbytevector_data bvec) ostart B\<rparr>)"
    using s0 cap slen o0 n by (subst enc_append_in_range) (simp_all add: len loop)
  show ?thesis
    by (simp add: ret n app view_at_write_at)
qed


theorem utf8b_bytes_roundtrip_witness:
  "Strue \<noteq> Sfalse
   \<and> c_bytes_utf8b_to_string_append [0x41, 0xE2, 0x82, 0xAC, 0xFF]
        \<lparr>Sstring_length = 3, Sstring_data = (\<lambda>_. 0)\<rparr> 0 3 Strue
      = (\<lparr>byte_n = 5, char_n = 3\<rparr>,
         \<lparr>Sstring_length = 3, Sstring_data = (\<lambda>_. 0)(0 := 0x41, 1 := 0x20AC, 2 := 0xDCFF)\<rparr>)
   \<and> (0::int) + int (c_bytes_utf8b_to_string_length [0x41, 0xE2, 0x82, 0xAC, 0xFF]) \<le> 3
   \<and> fst (c_string_to_utf8b_append
         \<lparr>Sstring_length = 3, Sstring_data = (\<lambda>_. 0)(0 := 0x41, 1 := 0x20AC, 2 := 0xDCFF)\<rparr> 0 3
         \<lparr>Sbytevector_length = 5, Sbytevector_data = (\<lambda>_. 0)\<rparr> 0) = Sfixnum 5
   \<and> view_at (Sbytevector_data (snd (c_string_to_utf8b_append
         \<lparr>Sstring_length = 3, Sstring_data = (\<lambda>_. 0)(0 := 0x41, 1 := 0x20AC, 2 := 0xDCFF)\<rparr> 0 3
         \<lparr>Sbytevector_length = 5, Sbytevector_data = (\<lambda>_. 0)\<rparr> 0))) 0
         (length [0x41, 0xE2, 0x82, 0xAC, 0xFF :: octet])
       = [0x41, 0xE2, 0x82, 0xAC, 0xFF]"
proof -
  let ?B = "[0x41, 0xE2, 0x82, 0xAC, 0xFF] :: octet list"
  let ?str = "\<lparr>Sstring_length = 3, Sstring_data = (\<lambda>_. 0)\<rparr>"
  let ?str' = "\<lparr>Sstring_length = 3, Sstring_data = (\<lambda>_. 0)(0 := 0x41, 1 := 0x20AC, 2 := 0xDCFF)\<rparr>"
  let ?bvec = "\<lparr>Sbytevector_length = 5, Sbytevector_data = (\<lambda>_. 0)\<rparr>"
  have h1: "Strue \<noteq> Sfalse" by simp
  have h2: "c_bytes_utf8b_to_string_append ?B ?str 0 3 Strue = (\<lparr>byte_n = 5, char_n = 3\<rparr>, ?str')"
    by (simp add: eval_defs loop_simps)
  have h3: "(0::int) + int (c_bytes_utf8b_to_string_length ?B) \<le> 3"
    by (simp add: eval_defs loop_simps)
  have h4: "(3::int) \<le> Sstring_length ?str" "(0::int) \<le> 0"
    "(0::int) + int (length ?B) \<le> Sbytevector_length ?bvec" by simp_all
  from utf8b_bytes_roundtrip [OF h1 h2 h4(2) h3 h4(1) h4(2) h4(3)] h1 h2 h3
  show ?thesis by simp
qed

text \<open>
  C2. Incomplete input. The claim is that the sequence decoder, called without end of input
  on \<open>[0xE2, 0x82]\<close>, stops without consuming these bytes and returns \<open>(0, 0)\<close>, and that
  \<open>[0xE2, 0x82, 0xAC]\<close> with end of input then gives \<open>(3, 1)\<close> and the scalar \<open>0x20AC\<close>. The
  second half holds. On the first, \<^verbatim>\<open>c_utf8_incomplete\<close> sets the length of the pair to
  \<^verbatim>\<open>in_len\<close>, which the test \<^verbatim>\<open>pair.length > in_len\<close> of the loop lets through: the loop
  consumes both bytes and writes the codepoint \<open>-1\<close>, and the result is \<open>(2, 1)\<close>.
\<close>

theorem incomplete_input_is_consumed:
  "c_utf8b_to_codepoint [0xE2, 0x82] Sfalse = \<lparr>pair_codepoint = 0xFFFFFFFF, pair_length = 2\<rparr>
   \<and> c_bytes_utf8b_to_string_append [0xE2, 0x82] str 0 1 Sfalse
       = (\<lparr>byte_n = 2, char_n = 1\<rparr>, Sstring_set str 0 0xFFFFFFFF)
   \<and> c_bytes_utf8b_to_string_append [0xE2, 0x82, 0xAC] str 0 1 Strue
       = (\<lparr>byte_n = 3, char_n = 1\<rparr>, Sstring_set str 0 0x20AC)"
  by (simp add: eval_defs loop_simps minus_one_u32)

text \<open>
  C3. Capacity safety. For every input and every declared capacity:
  \<^item> \<^verbatim>\<open>c_string_to_utf8b_append\<close> leaves the length of the bytevector and every byte at a
    position before \<open>ostart\<close> or at or beyond the length of the bytevector as they were; what
    it has written is, from \<open>ostart\<close> on and within the capacity, the encodings of the first
    \<open>k\<close> scalars of the range, for some \<open>k\<close>, with no byte of a later scalar; a position it
    returns is the end of these bytes. On a range within the string, either \<open>k\<close> is the
    number of scalars of the range and that position is returned, or the scalar after the
    first \<open>k\<close> has no encoding or an encoding longer than the room left, and the call
    returns no position.
  \<^item> \<^verbatim>\<open>c_bytes_utf8b_to_string_append\<close> leaves the length of the string and every scalar at
    a position before \<open>str_start\<close> or at or beyond \<open>str_end\<close> as they were; it writes no more
    than \<open>str_end - str_start\<close> scalars; what it has written is, from \<open>str_start\<close> on, the
    scalars of the first \<open>char_n\<close> units of the input, and \<open>byte_n\<close> is the number of bytes
    of these units, at most the length of the input; \<open>char_n\<close> is the number of units of the
    input or, if smaller, the number of positions from \<open>str_start\<close> to \<open>str_end\<close>.
\<close>

theorem append_never_writes_past_capacity:
  "Sbytevector_length (snd (c_string_to_utf8b_append string start end' bvec ostart))
     = Sbytevector_length bvec
   \<and> (\<forall>i. i < ostart \<or> Sbytevector_length bvec \<le> i \<longrightarrow>
         Sbytevector_data (snd (c_string_to_utf8b_append string start end' bvec ostart)) i
           = Sbytevector_data bvec i)
   \<and> (\<exists>k. Sbytevector_data (snd (c_string_to_utf8b_append string start end' bvec ostart))
              = write_at (Sbytevector_data bvec) ostart
                  (enc_run string (min start (Sstring_length string)) k)
          \<and> ostart + int (length (enc_run string (min start (Sstring_length string)) k))
              \<le> max ostart (Sbytevector_length bvec)
          \<and> (\<forall>p. fst (c_string_to_utf8b_append string start end' bvec ostart) = Sfixnum p \<longrightarrow>
                 p = ostart + int (length (enc_run string (min start (Sstring_length string)) k))))
   \<and> Sstring_length (snd (c_bytes_utf8b_to_string_append inp str str_start str_end eof))
       = Sstring_length str
   \<and> (\<forall>i. i < str_start \<or> str_end \<le> i \<longrightarrow>
         Sstring_data (snd (c_bytes_utf8b_to_string_append inp str str_start str_end eof)) i
           = Sstring_data str i)
   \<and> int (char_n (fst (c_bytes_utf8b_to_string_append inp str str_start str_end eof)))
       \<le> max 0 (str_end - str_start)
   \<and> byte_n (fst (c_bytes_utf8b_to_string_append inp str str_start str_end eof)) \<le> length inp
   \<and> Sstring_data (snd (c_bytes_utf8b_to_string_append inp str str_start str_end eof))
       = write_at (Sstring_data str) str_start
           (map pair_codepoint
              (take (char_n (fst (c_bytes_utf8b_to_string_append inp str str_start str_end eof)))
                 (utf8b_units inp eof)))
   \<and> byte_n (fst (c_bytes_utf8b_to_string_append inp str str_start str_end eof))
       = (\<Sum>p\<leftarrow>take (char_n (fst (c_bytes_utf8b_to_string_append inp str str_start str_end eof)))
                 (utf8b_units inp eof). unat (pair_length p))
   \<and> (0 \<le> start \<and> start \<le> end' \<and> end' \<le> Sstring_length string \<and> 0 \<le> ostart \<longrightarrow>
        (\<exists>k \<le> nat (end' - start).
           Sbytevector_data (snd (c_string_to_utf8b_append string start end' bvec ostart))
             = write_at (Sbytevector_data bvec) ostart (enc_run string start k)
           \<and> ((k = nat (end' - start)
                \<and> fst (c_string_to_utf8b_append string start end' bvec ostart)
                    = Sfixnum (ostart + int (length (enc_run string start k))))
              \<or> (k < nat (end' - start)
                \<and> (fst (c_string_to_utf8b_append string start end' bvec ostart) = Sfalse
                    \<or> fst (c_string_to_utf8b_append string start end' bvec ostart)
                        = Schar (Sstring_ref string (start + int k)))
                \<and> (utf8b_bytes (Sstring_ref string (start + int k)) = []
                    \<or> Sbytevector_length bvec
                        < ostart + int (length (enc_run string start k))
                            + int (length (utf8b_bytes (Sstring_ref string (start + int k)))))))))
   \<and> char_n (fst (c_bytes_utf8b_to_string_append inp str str_start str_end eof))
       = min (nat (str_end - str_start)) (length (utf8b_units inp eof))"
  (is "?c1 \<and> ?c2 \<and> ?c3 \<and> ?c4 \<and> ?c5 \<and> ?c6 \<and> ?c7 \<and> ?c8 \<and> ?c9 \<and> ?committed \<and> ?count")
proof -
  let ?R = "c_string_to_utf8b_append string start end' bvec ostart"
  let ?D = "c_bytes_utf8b_to_string_append inp str str_start str_end eof"
  let ?us = "take (nat (str_end - str_start)) (utf8b_units inp eof)"
  have e1: "Sbytevector_length (snd ?R) = Sbytevector_length bvec"
    by (simp add: c_string_to_utf8b_append_def Let_def split_beta)
  obtain k where k: "Sbytevector_data (snd ?R)
         = write_at (Sbytevector_data bvec) ostart (enc_run string (min start (Sstring_length string)) k)"
     "ostart + int (length (enc_run string (min start (Sstring_length string)) k))
         \<le> max ostart (Sbytevector_length bvec)"
     "\<forall>p. fst ?R = Sfixnum p \<longrightarrow>
            p = ostart + int (length (enc_run string (min start (Sstring_length string)) k))"
    using enc_append_char [of string start end' bvec ostart] by blast
  have e2: "\<forall>i. i < ostart \<or> Sbytevector_length bvec \<le> i \<longrightarrow>
         Sbytevector_data (snd ?R) i = Sbytevector_data bvec i"
  proof (intro allI impI)
    fix i assume "i < ostart \<or> Sbytevector_length bvec \<le> i"
    with k(2) have "i < ostart
        \<or> ostart + int (length (enc_run string (min start (Sstring_length string)) k)) \<le> i"
      by linarith
    then show "Sbytevector_data (snd ?R) i = Sbytevector_data bvec i"
      unfolding k(1) by (rule write_at_outside)
  qed
  have D: "?D = (\<lparr>byte_n = (\<Sum>p\<leftarrow>?us. unat (pair_length p)), char_n = length ?us\<rparr>,
       str\<lparr>Sstring_data := write_at (Sstring_data str) str_start (map pair_codepoint ?us)\<rparr>)"
    by (simp add: dec_append_eq Let_def)
  have tk: "take (length ?us) (utf8b_units inp eof) = ?us"
    by (cases "nat (str_end - str_start) \<le> length (utf8b_units inp eof)") (simp_all add: min_def)
  have d2: "\<forall>i. i < str_start \<or> str_end \<le> i \<longrightarrow> Sstring_data (snd ?D) i = Sstring_data str i"
  proof (intro allI impI)
    fix i assume "i < str_start \<or> str_end \<le> i"
    moreover have "int (length ?us) \<le> max 0 (str_end - str_start)" by simp
    ultimately have "i < str_start \<or> str_start + int (length (map pair_codepoint ?us)) \<le> i"
      unfolding length_map by linarith
    then show "Sstring_data (snd ?D) i = Sstring_data str i"
      unfolding D by (simp add: write_at_outside del: length_take length_map)
  qed
  have d3: "int (char_n (fst ?D)) \<le> max 0 (str_end - str_start)" unfolding D by simp
  have d4: "byte_n (fst ?D) \<le> length inp" unfolding D using units_take_sum_le by simp
  have bounded: "?c1 \<and> ?c2 \<and> ?c3 \<and> ?c4 \<and> ?c5 \<and> ?c6 \<and> ?c7 \<and> ?c8 \<and> ?c9"
    using e1 e2 k d2 d3 d4 by (auto simp add: D tk simp del: length_take)
  have committed: ?committed
    using enc_append_units [of start end' string ostart bvec] by blast
  have count: ?count by (rule dec_append_count)
  from bounded committed count show ?thesis by blast
qed


theorem append_never_writes_past_capacity_witness:
  "c_string_to_utf8b_append \<lparr>Sstring_length = 2, Sstring_data = (\<lambda>_. 0)(0 := 0x41, 1 := 0x42)\<rparr> 0 2
      \<lparr>Sbytevector_length = 1, Sbytevector_data = (\<lambda>_. 0)\<rparr> 0
     = (Sfalse, \<lparr>Sbytevector_length = 1, Sbytevector_data = (\<lambda>_. 0)(0 := 0x41)\<rparr>)
   \<and> ((1::int) < 0 \<or> Sbytevector_length \<lparr>Sbytevector_length = 1, Sbytevector_data = (\<lambda>_. 0)\<rparr> \<le> 1)
   \<and> Sbytevector_data (snd (c_string_to_utf8b_append
          \<lparr>Sstring_length = 2, Sstring_data = (\<lambda>_. 0)(0 := 0x41, 1 := 0x42)\<rparr> 0 2
          \<lparr>Sbytevector_length = 1, Sbytevector_data = (\<lambda>_. 0)\<rparr> 0)) 1
       = Sbytevector_data \<lparr>Sbytevector_length = 1, Sbytevector_data = (\<lambda>_. 0)\<rparr> 1
   \<and> fst (c_string_to_utf8b_append \<lparr>Sstring_length = 2, Sstring_data = (\<lambda>_. 0)(0 := 0x41, 1 := 0x42)\<rparr> 0 2
          \<lparr>Sbytevector_length = 2, Sbytevector_data = (\<lambda>_. 0)\<rparr> 0) = Sfixnum 2
   \<and> (\<exists>k. (2::int) = 0 + int (length (enc_run
          \<lparr>Sstring_length = 2, Sstring_data = (\<lambda>_. 0)(0 := 0x41, 1 := 0x42)\<rparr>
          (min 0 (Sstring_length \<lparr>Sstring_length = 2, Sstring_data = (\<lambda>_. 0)(0 := 0x41, 1 := 0x42)\<rparr>)) k)))
   \<and> c_bytes_utf8b_to_string_append [0x41, 0x42] \<lparr>Sstring_length = 1, Sstring_data = (\<lambda>_. 0)\<rparr> 0 1 Strue
     = (\<lparr>byte_n = 1, char_n = 1\<rparr>, \<lparr>Sstring_length = 1, Sstring_data = (\<lambda>_. 0)(0 := 0x41)\<rparr>)
   \<and> ((1::int) < 0 \<or> (1::int) \<le> 1)
   \<and> Sstring_data (snd (c_bytes_utf8b_to_string_append [0x41, 0x42]
          \<lparr>Sstring_length = 1, Sstring_data = (\<lambda>_. 0)\<rparr> 0 1 Strue)) 1
       = Sstring_data \<lparr>Sstring_length = 1, Sstring_data = (\<lambda>_. 0)\<rparr> 1
   \<and> ((0::int) \<le> 0 \<and> (0::int) \<le> 2
      \<and> 2 \<le> Sstring_length \<lparr>Sstring_length = 2, Sstring_data = (\<lambda>_. 0)(0 := 0x41, 1 := 0x42)\<rparr>
      \<and> (0::int) \<le> 0)
   \<and> (\<exists>k \<le> nat (2 - 0).
        Sbytevector_data (snd (c_string_to_utf8b_append \<lparr>Sstring_length = 2, Sstring_data = (\<lambda>_. 0)(0 := 0x41, 1 := 0x42)\<rparr> 0 2 \<lparr>Sbytevector_length = 1, Sbytevector_data = (\<lambda>_. 0)\<rparr> 0))
          = write_at (Sbytevector_data \<lparr>Sbytevector_length = 1, Sbytevector_data = (\<lambda>_. 0)\<rparr>) 0 (enc_run \<lparr>Sstring_length = 2, Sstring_data = (\<lambda>_. 0)(0 := 0x41, 1 := 0x42)\<rparr> 0 k)
        \<and> ((k = nat (2 - 0)
             \<and> fst (c_string_to_utf8b_append \<lparr>Sstring_length = 2, Sstring_data = (\<lambda>_. 0)(0 := 0x41, 1 := 0x42)\<rparr> 0 2 \<lparr>Sbytevector_length = 1, Sbytevector_data = (\<lambda>_. 0)\<rparr> 0)
                 = Sfixnum (0 + int (length (enc_run \<lparr>Sstring_length = 2, Sstring_data = (\<lambda>_. 0)(0 := 0x41, 1 := 0x42)\<rparr> 0 k))))
           \<or> (k < nat (2 - 0)
             \<and> (fst (c_string_to_utf8b_append \<lparr>Sstring_length = 2, Sstring_data = (\<lambda>_. 0)(0 := 0x41, 1 := 0x42)\<rparr> 0 2 \<lparr>Sbytevector_length = 1, Sbytevector_data = (\<lambda>_. 0)\<rparr> 0) = Sfalse
                 \<or> fst (c_string_to_utf8b_append \<lparr>Sstring_length = 2, Sstring_data = (\<lambda>_. 0)(0 := 0x41, 1 := 0x42)\<rparr> 0 2 \<lparr>Sbytevector_length = 1, Sbytevector_data = (\<lambda>_. 0)\<rparr> 0)
                     = Schar (Sstring_ref \<lparr>Sstring_length = 2, Sstring_data = (\<lambda>_. 0)(0 := 0x41, 1 := 0x42)\<rparr> (0 + int k)))
             \<and> (utf8b_bytes (Sstring_ref \<lparr>Sstring_length = 2, Sstring_data = (\<lambda>_. 0)(0 := 0x41, 1 := 0x42)\<rparr> (0 + int k)) = []
                 \<or> Sbytevector_length \<lparr>Sbytevector_length = 1, Sbytevector_data = (\<lambda>_. 0)\<rparr>
                     < 0 + int (length (enc_run \<lparr>Sstring_length = 2, Sstring_data = (\<lambda>_. 0)(0 := 0x41, 1 := 0x42)\<rparr> 0 k))
                         + int (length (utf8b_bytes (Sstring_ref \<lparr>Sstring_length = 2, Sstring_data = (\<lambda>_. 0)(0 := 0x41, 1 := 0x42)\<rparr> (0 + int k))))))))
   \<and> char_n (fst (c_bytes_utf8b_to_string_append [0x41, 0x42]
          \<lparr>Sstring_length = 1, Sstring_data = (\<lambda>_. 0)\<rparr> 0 1 Strue))
       = min (nat (1 - 0)) (length (utf8b_units [0x41, 0x42] Strue))"
proof -
  let ?string = "\<lparr>Sstring_length = 2, Sstring_data = (\<lambda>_. 0)(0 := 0x41, 1 := 0x42)\<rparr>"
  let ?bvecA = "\<lparr>Sbytevector_length = 1, Sbytevector_data = (\<lambda>_. 0)\<rparr>"
  let ?bvecB = "\<lparr>Sbytevector_length = 2, Sbytevector_data = (\<lambda>_. 0)\<rparr>"
  let ?str = "\<lparr>Sstring_length = 1, Sstring_data = (\<lambda>_. 0)\<rparr>"
  have a: "c_string_to_utf8b_append ?string 0 2 ?bvecA 0
           = (Sfalse, \<lparr>Sbytevector_length = 1, Sbytevector_data = (\<lambda>_. 0)(0 := 0x41)\<rparr>)"
    by (simp add: eval_defs loop_simps)
  have b: "fst (c_string_to_utf8b_append ?string 0 2 ?bvecB 0) = Sfixnum 2"
    by (simp add: eval_defs loop_simps)
  have d: "c_bytes_utf8b_to_string_append [0x41, 0x42] ?str 0 1 Strue
     = (\<lparr>byte_n = 1, char_n = 1\<rparr>, \<lparr>Sstring_length = 1, Sstring_data = (\<lambda>_. 0)(0 := 0x41)\<rparr>)"
    by (simp add: eval_defs loop_simps)
  have h1: "(1::int) < 0 \<or> Sbytevector_length ?bvecA \<le> 1" by simp
  have h2: "(1::int) < 0 \<or> (1::int) \<le> 1" by simp
  note tA = append_never_writes_past_capacity
              [of ?string 0 2 ?bvecA 0 "[0x41, 0x42]" ?str 0 1 Strue]
  note tB = append_never_writes_past_capacity
              [of ?string 0 2 ?bvecB 0 "[0x41, 0x42]" ?str 0 1 Strue]
  from tA h1 have f1: "Sbytevector_data (snd (c_string_to_utf8b_append ?string 0 2 ?bvecA 0)) 1
       = Sbytevector_data ?bvecA 1" by blast
  from tA h2 have f2: "Sstring_data (snd (c_bytes_utf8b_to_string_append [0x41, 0x42] ?str 0 1 Strue)) 1
       = Sstring_data ?str 1" by blast
  from tB b have f3: "\<exists>k. (2::int) = 0 + int (length (enc_run ?string (min 0 (Sstring_length ?string)) k))"
    by blast
  have h3: "(0::int) \<le> 0 \<and> (0::int) \<le> 2 \<and> 2 \<le> Sstring_length ?string \<and> (0::int) \<le> 0"
    by simp
  from tA h3 have f4: "(\<exists>k \<le> nat (2 - 0).
      Sbytevector_data (snd (c_string_to_utf8b_append ?string 0 2 ?bvecA 0))
        = write_at (Sbytevector_data ?bvecA) 0 (enc_run ?string 0 k)
      \<and> ((k = nat (2 - 0)
           \<and> fst (c_string_to_utf8b_append ?string 0 2 ?bvecA 0)
               = Sfixnum (0 + int (length (enc_run ?string 0 k))))
         \<or> (k < nat (2 - 0)
           \<and> (fst (c_string_to_utf8b_append ?string 0 2 ?bvecA 0) = Sfalse
               \<or> fst (c_string_to_utf8b_append ?string 0 2 ?bvecA 0)
                   = Schar (Sstring_ref ?string (0 + int k)))
           \<and> (utf8b_bytes (Sstring_ref ?string (0 + int k)) = []
               \<or> Sbytevector_length ?bvecA
                   < 0 + int (length (enc_run ?string 0 k))
                       + int (length (utf8b_bytes (Sstring_ref ?string (0 + int k))))))))"
    by blast
  from tA have f5: "char_n (fst (c_bytes_utf8b_to_string_append [0x41, 0x42] ?str 0 1 Strue))
       = min (nat (1 - 0)) (length (utf8b_units [0x41, 0x42] Strue))" by blast
  from a b d h1 h2 h3 f1 f2 f3 f4 f5 show ?thesis by blast
qed

text \<open>
  C4. Outcomes of the sequence encoder. The claim is that the scalar is returned exactly when
  it cannot be encoded and \<^verbatim>\<open>Sfalse\<close> exactly when the room left is too small for the next
  unit. On the code, \<^verbatim>\<open>c_codepoint_to_utf8b\<close> returns 0 in both cases and the loop returns
  the scalar whenever it does: the scalar \<open>0x20AC\<close>, which three bytes encode, is returned as
  invalid when two bytes are left; and a scalar that cannot be encoded gives \<^verbatim>\<open>Sfalse\<close> when no
  byte is left.
\<close>

theorem short_buffer_returns_the_scalar:
  "c_codepoint_to_utf8b 0x20AC out 0 3 = (3, out(0 := 0xE2, 1 := 0x82, 2 := 0xAC))
   \<and> c_string_to_utf8b_append \<lparr>Sstring_length = 1, Sstring_data = (\<lambda>_. 0x20AC)\<rparr> 0 1
         \<lparr>Sbytevector_length = 2, Sbytevector_data = out\<rparr> 0
       = (Schar 0x20AC, \<lparr>Sbytevector_length = 2, Sbytevector_data = out\<rparr>)
   \<and> c_string_to_utf8b_append \<lparr>Sstring_length = 1, Sstring_data = (\<lambda>_. 0xD800)\<rparr> 0 1
         \<lparr>Sbytevector_length = 0, Sbytevector_data = out\<rparr> 0
       = (Sfalse, \<lparr>Sbytevector_length = 0, Sbytevector_data = out\<rparr>)"
  by (simp add: eval_defs loop_simps)

text \<open>
  C5. Validation of the range arguments. As stated, with an end beyond the length of the
  buffer among the arguments that are rejected, the claim fails: the encoder takes an end
  beyond the length of the string for the length of the string, encodes and succeeds.
\<close>

theorem end_beyond_string_length_is_not_rejected:
  "Sstring_length \<lparr>Sstring_length = 1, Sstring_data = (\<lambda>_. 0x41)\<rparr> < 5
   \<and> fst (c_string_to_utf8b_append \<lparr>Sstring_length = 1, Sstring_data = (\<lambda>_. 0x41)\<rparr> 0 5
            \<lparr>Sbytevector_length = 4, Sbytevector_data = (\<lambda>_. 0)\<rparr> 0) = Sfixnum 1
   \<and> fst (c_string_to_utf8b_append \<lparr>Sstring_length = 1, Sstring_data = (\<lambda>_. 0x41)\<rparr> 0 5
            \<lparr>Sbytevector_length = 4, Sbytevector_data = (\<lambda>_. 0)\<rparr> 0) \<noteq> Sfalse
   \<and> Sbytevector_data (snd (c_string_to_utf8b_append
            \<lparr>Sstring_length = 1, Sstring_data = (\<lambda>_. 0x41)\<rparr> 0 5
            \<lparr>Sbytevector_length = 4, Sbytevector_data = (\<lambda>_. 0)\<rparr> 0)) 0 = 0x41
   \<and> Sbytevector_data \<lparr>Sbytevector_length = 4, Sbytevector_data = (\<lambda>_. 0)\<rparr> 0 = 0"
  by (simp add: eval_defs loop_simps)

text \<open>
  C5, amended. A call with a negative start, with an end before the start, with a negative
  output start, and for the decoder also with an end beyond the length of the bytevector or
  with a string range that is negative or inverted, changes nothing and reports it:
  \<^verbatim>\<open>c_string_to_utf8b_append\<close> returns \<^verbatim>\<open>Sfalse\<close>, \<^verbatim>\<open>c_string_to_utf8b_length\<close> returns 0 (also
  for an empty range), \<^verbatim>\<open>c_bytevector_utf8b_to_string_append\<close> sets both counts to 0. An end
  beyond the length of the string is not rejected by the encoder and by its length
  computation: it stands for the length of the string.
\<close>

theorem invalid_ranges_rejected_end_clamped:
  "(start < 0 \<or> end' < start \<or> ostart < 0 \<longrightarrow>
      c_string_to_utf8b_append string start end' bvec ostart = (Sfalse, bvec))
   \<and> (start < 0 \<or> end' \<le> start \<longrightarrow> c_string_to_utf8b_length string start end' = 0)
   \<and> (bvec_start < 0 \<or> bvec_end < bvec_start \<or> Sbytevector_length bvec < bvec_end
        \<or> str_start < 0 \<or> str_end < str_start \<longrightarrow>
      c_bytevector_utf8b_to_string_append bvec bvec_start bvec_end str str_start str_end (Scons a d)
        = (str, Scons (Sfixnum 0) (Sfixnum 0)))
   \<and> (0 \<le> start \<and> start \<le> end' \<and> Sstring_length string \<le> end' \<longrightarrow>
      c_string_to_utf8b_append string start end' bvec ostart
        = c_string_to_utf8b_append string start (max start (Sstring_length string)) bvec ostart
      \<and> c_string_to_utf8b_length string start end'
        = c_string_to_utf8b_length string start (Sstring_length string))"
proof (intro conjI impI)
  assume "start < 0 \<or> end' < start \<or> ostart < 0"
  then show "c_string_to_utf8b_append string start end' bvec ostart = (Sfalse, bvec)"
    by (auto simp add: c_string_to_utf8b_append_def)
next
  assume "start < 0 \<or> end' \<le> start"
  then show "c_string_to_utf8b_length string start end' = 0"
    by (auto simp add: c_string_to_utf8b_length_def)
next
  assume "bvec_start < 0 \<or> bvec_end < bvec_start \<or> Sbytevector_length bvec < bvec_end
        \<or> str_start < 0 \<or> str_end < str_start"
  then show "c_bytevector_utf8b_to_string_append bvec bvec_start bvec_end str str_start str_end
               (Scons a d) = (str, Scons (Sfixnum 0) (Sfixnum 0))"
    by (auto simp add: c_bytevector_utf8b_to_string_append_def)
next
  assume a: "0 \<le> start \<and> start \<le> end' \<and> Sstring_length string \<le> end'"
  then show "c_string_to_utf8b_append string start end' bvec ostart
        = c_string_to_utf8b_append string start (max start (Sstring_length string)) bvec ostart"
    by (simp add: c_string_to_utf8b_append_def Let_def max_def)
  from a show "c_string_to_utf8b_length string start end'
        = c_string_to_utf8b_length string start (Sstring_length string)"
    by (auto simp add: c_string_to_utf8b_length_def Let_def length_loop_empty)
qed

theorem invalid_ranges_rejected_end_clamped_witness:
  "((-1::int) < 0 \<or> (1::int) < -1 \<or> (0::int) < 0)
   \<and> c_string_to_utf8b_append \<lparr>Sstring_length = 1, Sstring_data = (\<lambda>_. 0x41)\<rparr> (-1) 1
         \<lparr>Sbytevector_length = 4, Sbytevector_data = (\<lambda>_. 0)\<rparr> 0
       = (Sfalse, \<lparr>Sbytevector_length = 4, Sbytevector_data = (\<lambda>_. 0)\<rparr>)
   \<and> ((-1::int) < 0 \<or> (1::int) \<le> -1)
   \<and> c_string_to_utf8b_length \<lparr>Sstring_length = 1, Sstring_data = (\<lambda>_. 0x41)\<rparr> (-1) 1 = 0
   \<and> ((0::int) < 0 \<or> (5::int) < 0
        \<or> Sbytevector_length \<lparr>Sbytevector_length = 4, Sbytevector_data = (\<lambda>_. 0)\<rparr> < 5
        \<or> (0::int) < 0 \<or> (1::int) < 0)
   \<and> c_bytevector_utf8b_to_string_append \<lparr>Sbytevector_length = 4, Sbytevector_data = (\<lambda>_. 0)\<rparr> 0 5
         \<lparr>Sstring_length = 1, Sstring_data = (\<lambda>_. 0x41)\<rparr> 0 1 (Scons Strue Sfalse)
       = (\<lparr>Sstring_length = 1, Sstring_data = (\<lambda>_. 0x41)\<rparr>, Scons (Sfixnum 0) (Sfixnum 0))
   \<and> ((0::int) \<le> 0 \<and> (0::int) \<le> 5
        \<and> Sstring_length \<lparr>Sstring_length = 1, Sstring_data = (\<lambda>_. 0x41)\<rparr> \<le> 5)
   \<and> c_string_to_utf8b_append \<lparr>Sstring_length = 1, Sstring_data = (\<lambda>_. 0x41)\<rparr> 0 5
         \<lparr>Sbytevector_length = 4, Sbytevector_data = (\<lambda>_. 0)\<rparr> 0
       = c_string_to_utf8b_append \<lparr>Sstring_length = 1, Sstring_data = (\<lambda>_. 0x41)\<rparr> 0
           (max 0 (Sstring_length \<lparr>Sstring_length = 1, Sstring_data = (\<lambda>_. 0x41)\<rparr>))
           \<lparr>Sbytevector_length = 4, Sbytevector_data = (\<lambda>_. 0)\<rparr> 0
   \<and> c_string_to_utf8b_length \<lparr>Sstring_length = 1, Sstring_data = (\<lambda>_. 0x41)\<rparr> 0 5
       = c_string_to_utf8b_length \<lparr>Sstring_length = 1, Sstring_data = (\<lambda>_. 0x41)\<rparr> 0
           (Sstring_length \<lparr>Sstring_length = 1, Sstring_data = (\<lambda>_. 0x41)\<rparr>)"
proof -
  let ?string = "\<lparr>Sstring_length = 1, Sstring_data = (\<lambda>_. 0x41)\<rparr>"
  let ?bvec = "\<lparr>Sbytevector_length = 4, Sbytevector_data = (\<lambda>_. 0)\<rparr>"
  have h1: "(-1::int) < 0 \<or> (1::int) < -1 \<or> (0::int) < 0" by simp
  have h2: "(-1::int) < 0 \<or> (1::int) \<le> -1" by simp
  have h3: "(0::int) < 0 \<or> (5::int) < 0 \<or> Sbytevector_length ?bvec < 5
        \<or> (0::int) < 0 \<or> (1::int) < 0" by simp
  have h4: "(0::int) \<le> 0 \<and> (0::int) \<le> 5 \<and> Sstring_length ?string \<le> 5" by simp
  note tA = invalid_ranges_rejected_end_clamped
              [where start = "-1" and end' = 1 and ostart = 0 and string = ?string and bvec = ?bvec
                 and bvec_start = 0 and bvec_end = 5 and str_start = 0 and str_end = 1
                 and str = ?string and a = Strue and d = Sfalse]
  note tB = invalid_ranges_rejected_end_clamped
              [where start = 0 and end' = 5 and ostart = 0 and string = ?string and bvec = ?bvec
                 and bvec_start = 0 and bvec_end = 5 and str_start = 0 and str_end = 1
                 and str = ?string and a = Strue and d = Sfalse]
  from tA h1 have a: "c_string_to_utf8b_append ?string (-1) 1 ?bvec 0 = (Sfalse, ?bvec)" by blast
  from tA h2 have b: "c_string_to_utf8b_length ?string (-1) 1 = 0" by blast
  from tA h3 have c: "c_bytevector_utf8b_to_string_append ?bvec 0 5 ?string 0 1 (Scons Strue Sfalse)
       = (?string, Scons (Sfixnum 0) (Sfixnum 0))" by blast
  from tB h4 have d: "c_string_to_utf8b_append ?string 0 5 ?bvec 0
       = c_string_to_utf8b_append ?string 0 (max 0 (Sstring_length ?string)) ?bvec 0"
    "c_string_to_utf8b_length ?string 0 5
       = c_string_to_utf8b_length ?string 0 (Sstring_length ?string)" by blast+
  from h1 h2 h3 h4 a b c d show ?thesis by blast
qed

text \<open>
  C6. Scalar-level round trip: when every scalar of the range \<open>[start, end)\<close> of a string is in
  \<open>[0, 0xD800)\<close> or \<open>[0xE000, 0x110000)\<close>, encoding the range into a bytevector with room for
  the bytes that the length computation counts succeeds, and decoding the bytes written, with
  end of input asserted, into a string with room for \<open>end - start\<close> scalars consumes all of them
  and writes exactly the scalars of the range.
\<close>

theorem utf8b_scalars_roundtrip:
  assumes legal: "\<forall>i. start \<le> i \<and> i < end' \<longrightarrow>
                    Sstring_ref string i < 0xD800
                    \<or> (0xE000 \<le> Sstring_ref string i \<and> Sstring_ref string i < 0x110000)"
    and rng: "0 \<le> start" "start \<le> end'" "end' \<le> Sstring_length string"
    and o0: "0 \<le> ostart"
    and ocap: "ostart + c_string_to_utf8b_length string start end' \<le> Sbytevector_length bvec"
    and enc: "c_string_to_utf8b_append string start end' bvec ostart = (r, bvec')"
    and eof: "eof \<noteq> Sfalse"
    and cap: "str_start + (end' - start) \<le> str_end"
    and dec: "c_bytes_utf8b_to_string_append
                (view_at (Sbytevector_data bvec') ostart (nat (c_string_to_utf8b_length string start end')))
                str str_start str_end eof = (ret, str')"
  shows "r = Sfixnum (ostart + c_string_to_utf8b_length string start end')
       \<and> ret = \<lparr>byte_n = nat (c_string_to_utf8b_length string start end'),
                 char_n = nat (end' - start)\<rparr>
       \<and> (\<forall>k < nat (end' - start).
             Sstring_ref str' (str_start + int k) = Sstring_ref string (start + int k))"
proof -
  let ?n = "nat (end' - start)"
  let ?S = "view_at (Sstring_data string) start ?n"
  let ?E = "enc_run string start ?n"
  have legal': "\<forall>k < ?n. unat (Sstring_data string (start + int k)) < 55296
             \<or> (57344 \<le> unat (Sstring_data string (start + int k))
                \<and> unat (Sstring_data string (start + int k)) < 1114112)"
  proof (intro allI impI)
    fix k assume "k < ?n"
    then have "start \<le> start + int k \<and> start + int k < end'" by linarith
    with legal show "unat (Sstring_data string (start + int k)) < 55296
             \<or> (57344 \<le> unat (Sstring_data string (start + int k))
                \<and> unat (Sstring_data string (start + int k)) < 1114112)"
      by (simp add: Sstring_ref_def word_less_nat_alt word_le_nat_alt)
  qed
  have L: "c_string_to_utf8b_length string start end' = int (length ?E)"
    using legal' rng by (rule enc_length_in_range)
  have ne: "\<forall>j < ?n. utf8b_bytes (Sstring_data string (start + int j)) \<noteq> []"
    using legal' enc_dec_unit by blast
  have loop: "c_string_to_utf8b_append_loop string start end' (Sbytevector_data bvec)
                (Sbytevector_length bvec) ostart
              = (Sfixnum (ostart + int (length ?E)), write_at (Sbytevector_data bvec) ostart ?E)"
    using ne ocap unfolding L by (rule enc_loop_ok)
  from enc have r: "r = Sfixnum (ostart + int (length ?E))"
    and bvec': "Sbytevector_data bvec' = write_at (Sbytevector_data bvec) ostart ?E"
    using rng o0 by (auto simp add: enc_append_in_range loop)
  have view: "view_at (Sbytevector_data bvec') ostart (nat (c_string_to_utf8b_length string start end')) = ?E"
    unfolding bvec' L by (simp add: view_at_write_at)
  have S: "\<forall>cp \<in> set ?S. unat cp < 55296 \<or> (57344 \<le> unat cp \<and> unat cp < 1114112)"
    using legal' by (auto simp add: view_at_def)
  have cps: "map pair_codepoint (utf8b_units ?E eof) = ?S"
    unfolding enc_run_def using S by (rule units_of_encoding)
  then have len: "length (utf8b_units ?E eof) = ?n"
    by (metis length_map length_view_at)
  with cap have tk: "take (nat (str_end - str_start)) (utf8b_units ?E eof) = utf8b_units ?E eof"
    by simp
  from dec have ret: "ret = \<lparr>byte_n = length ?E, char_n = ?n\<rparr>"
    and str': "Sstring_data str' = write_at (Sstring_data str) str_start ?S"
    unfolding view by (auto simp add: dec_append_eq Let_def tk units_sum [OF eof] len cps)
  have "\<forall>k < ?n. Sstring_ref str' (str_start + int k) = Sstring_ref string (start + int k)"
  proof (intro allI impI)
    fix k assume k: "k < ?n"
    then have "k < length ?S" by (simp add: length_view_at)
    then have "write_at (Sstring_data str) str_start ?S (str_start + int k) = ?S ! k"
      by (rule write_at_inside)
    then show "Sstring_ref str' (str_start + int k) = Sstring_ref string (start + int k)"
      using k by (simp add: Sstring_ref_def str' nth_view_at)
  qed
  then show ?thesis using r ret L by simp
qed


theorem utf8b_scalars_roundtrip_witness:
  "Sstring_ref \<lparr>Sstring_length = 2, Sstring_data = (\<lambda>_. 0)(0 := 0x41, 1 := 0x20AC)\<rparr> 0 < 0xD800
   \<and> Sstring_ref \<lparr>Sstring_length = 2, Sstring_data = (\<lambda>_. 0)(0 := 0x41, 1 := 0x20AC)\<rparr> 1 < 0xD800
   \<and> c_string_to_utf8b_length \<lparr>Sstring_length = 2, Sstring_data = (\<lambda>_. 0)(0 := 0x41, 1 := 0x20AC)\<rparr> 0 2 = 4
   \<and> c_string_to_utf8b_append \<lparr>Sstring_length = 2, Sstring_data = (\<lambda>_. 0)(0 := 0x41, 1 := 0x20AC)\<rparr> 0 2
         \<lparr>Sbytevector_length = 4, Sbytevector_data = (\<lambda>_. 0)\<rparr> 0
       = (Sfixnum 4, \<lparr>Sbytevector_length = 4,
                      Sbytevector_data = (\<lambda>_. 0)(0 := 0x41, 1 := 0xE2, 2 := 0x82, 3 := 0xAC)\<rparr>)
   \<and> Strue \<noteq> Sfalse
   \<and> c_bytes_utf8b_to_string_append [0x41, 0xE2, 0x82, 0xAC]
         \<lparr>Sstring_length = 2, Sstring_data = (\<lambda>_. 0)\<rparr> 0 2 Strue
       = (\<lparr>byte_n = 4, char_n = 2\<rparr>,
          \<lparr>Sstring_length = 2, Sstring_data = (\<lambda>_. 0)(0 := 0x41, 1 := 0x20AC)\<rparr>)"
proof -
  let ?string = "\<lparr>Sstring_length = 2, Sstring_data = (\<lambda>_. 0)(0 := 0x41, 1 := 0x20AC)\<rparr>"
  let ?bvec = "\<lparr>Sbytevector_length = 4, Sbytevector_data = (\<lambda>_. 0)\<rparr>"
  let ?bvec' = "\<lparr>Sbytevector_length = 4,
                 Sbytevector_data = (\<lambda>_. 0)(0 := 0x41, 1 := 0xE2, 2 := 0x82, 3 := 0xAC)\<rparr>"
  let ?str = "\<lparr>Sstring_length = 2, Sstring_data = (\<lambda>_. 0)\<rparr>"
  have h1: "\<forall>i. (0::int) \<le> i \<and> i < 2 \<longrightarrow>
       Sstring_ref ?string i < 0xD800
       \<or> (0xE000 \<le> Sstring_ref ?string i \<and> Sstring_ref ?string i < 0x110000)"
  proof (intro allI impI)
    fix i :: int assume "0 \<le> i \<and> i < 2"
    then have "i = 0 \<or> i = 1" by linarith
    then show "Sstring_ref ?string i < 0xD800
       \<or> (0xE000 \<le> Sstring_ref ?string i \<and> Sstring_ref ?string i < 0x110000)"
      by (auto simp add: Sstring_ref_def)
  qed
  have L: "c_string_to_utf8b_length ?string 0 2 = 4"
    by (simp add: eval_defs loop_simps)
  have h2: "(0::int) \<le> 0" "(0::int) \<le> 2" "2 \<le> Sstring_length ?string"
    "0 + c_string_to_utf8b_length ?string 0 2 \<le> Sbytevector_length ?bvec"
    "(0::int) + (2 - 0) \<le> 2"
    by (simp_all add: L)
  have h3: "c_string_to_utf8b_append ?string 0 2 ?bvec 0 = (Sfixnum 4, ?bvec')"
    by (simp add: eval_defs loop_simps)
  have h4: "Strue \<noteq> Sfalse" by simp
  have v: "view_at (Sbytevector_data ?bvec') 0 (nat (c_string_to_utf8b_length ?string 0 2))
           = [0x41, 0xE2, 0x82, 0xAC]"
    by (simp add: L view_at_simps)
  obtain ret str' where d: "c_bytes_utf8b_to_string_append
      (view_at (Sbytevector_data ?bvec') 0 (nat (c_string_to_utf8b_length ?string 0 2)))
      ?str 0 2 Strue = (ret, str')"
    by (cases "c_bytes_utf8b_to_string_append
      (view_at (Sbytevector_data ?bvec') 0 (nat (c_string_to_utf8b_length ?string 0 2)))
      ?str 0 2 Strue") blast
  note t = utf8b_scalars_roundtrip [OF h1 h2(1) h2(2) h2(3) h2(1) h2(4) h3 h4 h2(5) d]
  have e: "c_bytes_utf8b_to_string_append [0x41, 0xE2, 0x82, 0xAC] ?str 0 2 Strue
       = (\<lparr>byte_n = 4, char_n = 2\<rparr>, ?string)"
    by (simp add: eval_defs loop_simps)
  have h0: "Sstring_ref ?string 0 < 0xD800" "Sstring_ref ?string 1 < 0xD800"
    by (simp_all add: Sstring_ref_def)
  from t h0 L h3 h4 e show ?thesis by blast
qed

text \<open>
  C7. The length-only scalar decoder returns the consumed-byte count of the stateful scalar
  decoder called with end of input asserted. Hence the scalar count of the length-only pass
  over a byte view is the number of scalars that the append operation writes, with end of
  input asserted and room for that many scalars, and the append operation then consumes the
  whole view. A truncated tail counts one scalar per byte: a lone byte, a lead byte of a
  three or four byte form followed by one byte, a lead byte of a four byte form followed
  by a continuation byte and one more byte.
\<close>

theorem length_only_agrees_with_decoder:
  assumes "eof \<noteq> Sfalse"
  shows "c_utf8b_to_codepoint_length inp = pair_length (c_utf8b_to_codepoint inp eof)
       \<and> (str_start + int (c_bytes_utf8b_to_string_length inp) \<le> str_end \<longrightarrow>
            fst (c_bytes_utf8b_to_string_append inp str str_start str_end eof)
              = \<lparr>byte_n = length inp, char_n = c_bytes_utf8b_to_string_length inp\<rparr>)
       \<and> c_bytes_utf8b_to_string_length [b0] = 1
       \<and> (224 \<le> unat b0 \<longrightarrow> c_bytes_utf8b_to_string_length [b0, b1] = 2)
       \<and> (240 \<le> unat b0 \<and> 128 \<le> unat b1 \<and> unat b1 < 192 \<longrightarrow>
            c_bytes_utf8b_to_string_length [b0, b1, b2] = 3)"
proof (intro conjI impI)
  show "c_utf8b_to_codepoint_length inp = pair_length (c_utf8b_to_codepoint inp eof)"
    using assms by (rule length_agree_unit)
next
  assume cap: "str_start + int (c_bytes_utf8b_to_string_length inp) \<le> str_end"
  have n: "c_bytes_utf8b_to_string_length inp = length (utf8b_units inp eof)"
    using assms by (rule length_eq_units)
  with cap have "take (nat (str_end - str_start)) (utf8b_units inp eof) = utf8b_units inp eof"
    by simp
  then show "fst (c_bytes_utf8b_to_string_append inp str str_start str_end eof)
              = \<lparr>byte_n = length inp, char_n = c_bytes_utf8b_to_string_length inp\<rparr>"
    by (simp add: dec_append_eq Let_def n units_sum [OF assms])
next
  show "c_bytes_utf8b_to_string_length [b0] = 1"
    by (simp add: c_bytes_utf8b_to_string_length_def count_step count_Nil len_single)
next
  assume "224 \<le> unat b0"
  then show "c_bytes_utf8b_to_string_length [b0, b1] = 2"
    by (simp add: c_bytes_utf8b_to_string_length_def count_step count_Nil len_single len_trunc2)
next
  assume "240 \<le> unat b0 \<and> 128 \<le> unat b1 \<and> unat b1 < 192"
  then show "c_bytes_utf8b_to_string_length [b0, b1, b2] = 3"
    by (simp add: c_bytes_utf8b_to_string_length_def count_step count_Nil len_single len_trunc3
          len_cont_lead)
qed

theorem length_only_agrees_with_decoder_witness:
  "Strue \<noteq> Sfalse
   \<and> (0::int) + int (c_bytes_utf8b_to_string_length [0x41, 0xE2, 0x82]) \<le> 3
   \<and> (224::nat) \<le> unat (0xE2 :: octet)
   \<and> (240 \<le> unat (0xF0 :: octet) \<and> 128 \<le> unat (0x90 :: octet) \<and> unat (0x90 :: octet) < 192)
   \<and> c_utf8b_to_codepoint_length [0x41, 0xE2, 0x82] = pair_length (c_utf8b_to_codepoint [0x41, 0xE2, 0x82] Strue)
   \<and> fst (c_bytes_utf8b_to_string_append [0x41, 0xE2, 0x82] \<lparr>Sstring_length = 3, Sstring_data = (\<lambda>_. 0)\<rparr> 0 3 Strue)
        = \<lparr>byte_n = 3, char_n = 3\<rparr>
   \<and> c_bytes_utf8b_to_string_length [0xE2, 0x82] = 2
   \<and> c_bytes_utf8b_to_string_length [0xF0, 0x90, 0x80] = 3"
proof -
  have h1: "Strue \<noteq> Sfalse" by simp
  have h2: "(0::int) + int (c_bytes_utf8b_to_string_length [0x41, 0xE2, 0x82]) \<le> 3"
    by (simp add: eval_defs loop_simps)
  have h3: "(224::nat) \<le> unat (0xE2 :: octet)" by simp
  have h4: "240 \<le> unat (0xF0 :: octet) \<and> 128 \<le> unat (0x90 :: octet) \<and> unat (0x90 :: octet) < 192"
    by simp
  have n: "c_bytes_utf8b_to_string_length [0x41, 0xE2, 0x82] = 3"
    by (simp add: eval_defs loop_simps)
  from length_only_agrees_with_decoder [OF h1, of "[0x41, 0xE2, 0x82]" 0 3
         "\<lparr>Sstring_length = 3, Sstring_data = (\<lambda>_. 0)\<rparr>" "0xE2" "0x82" "0x80"]
       length_only_agrees_with_decoder [OF h1, of "[0x41, 0xE2, 0x82]" 0 3
         "\<lparr>Sstring_length = 3, Sstring_data = (\<lambda>_. 0)\<rparr>" "0xF0" "0x90" "0x80"]
       h1 h2 h3 h4 n
  show ?thesis by simp
qed

text \<open>
  C8. The length computation of the encoder does not validate. For every scalar the length
  it reports is 1, 2, 3 or 4. For a bare surrogate, in \<open>[0xD800, 0xDC80)\<close> or
  \<open>[0xDD00, 0xE000)\<close>, it reports 3, for the scalar and for a range of a string that holds
  only this scalar, although \<^verbatim>\<open>c_codepoint_to_utf8b\<close> writes nothing for it whatever the room, and
  \<^verbatim>\<open>c_string_to_utf8b_append\<close> on a range that starts with it, into a bytevector with room
  left, returns the scalar as invalid and leaves the bytevector as it was.
\<close>

theorem length_does_not_validate:
  "c_codepoint_to_utf8b_length cp \<in> {1, 2, 3, 4}
   \<and> ((0xD800 \<le> cp \<and> cp < 0xDC80) \<or> (0xDD00 \<le> cp \<and> cp < 0xE000) \<longrightarrow>
        c_codepoint_to_utf8b_length cp = 3
        \<and> c_codepoint_to_utf8b cp out opos out_len = (0, out)
        \<and> (0 \<le> start \<and> start < end' \<and> start < Sstring_length string
             \<and> Sstring_ref string start = cp \<and> 0 \<le> ostart \<and> ostart < Sbytevector_length bvec \<longrightarrow>
             c_string_to_utf8b_length string start (start + 1) = 3
             \<and> c_string_to_utf8b_append string start end' bvec ostart = (Schar cp, bvec)))"
proof (intro conjI impI)
  show "c_codepoint_to_utf8b_length cp \<in> {1, 2, 3, 4}"
    by (simp add: c_codepoint_to_utf8b_length_def)
next
  assume s: "(0xD800 \<le> cp \<and> cp < 0xDC80) \<or> (0xDD00 \<le> cp \<and> cp < 0xE000)"
  show "c_codepoint_to_utf8b_length cp = 3" using s by (rule surrogate_unit)
  show "c_codepoint_to_utf8b cp out opos out_len = (0, out)" using s by (rule surrogate_unit)
  assume a: "0 \<le> start \<and> start < end' \<and> start < Sstring_length string
             \<and> Sstring_ref string start = cp \<and> 0 \<le> ostart \<and> ostart < Sbytevector_length bvec"
  have "c_string_to_utf8b_length_loop string start (start + 1) 0 = 3"
    using a surrogate_unit(1) [OF s]
    by (subst c_string_to_utf8b_length_loop.simps, subst c_string_to_utf8b_length_loop.simps) simp
  moreover have "(if start + 1 < Sstring_length string then start + 1 else Sstring_length string)
                 = start + 1" using a by simp
  ultimately show "c_string_to_utf8b_length string start (start + 1) = 3"
    using a by (simp add: c_string_to_utf8b_length_def Let_def)
  have "start < (if end' < Sstring_length string then (if end' \<ge> start then end' else start)
                 else Sstring_length string)"
    using a by simp
  then have "c_string_to_utf8b_append_loop string start
          (if end' < Sstring_length string then (if end' \<ge> start then end' else start)
           else Sstring_length string)
          (Sbytevector_data bvec) (Sbytevector_length bvec) ostart = (Schar cp, Sbytevector_data bvec)"
    using a surrogate_unit(2) [OF s]
    by (subst c_string_to_utf8b_append_loop.simps) (simp add: Let_def)
  then show "c_string_to_utf8b_append string start end' bvec ostart = (Schar cp, bvec)"
    using a by (simp add: c_string_to_utf8b_append_def Let_def)
qed

theorem length_does_not_validate_witness:
  "((0xD800 \<le> (0xD800 :: uint32_t) \<and> (0xD800 :: uint32_t) < 0xDC80)
      \<or> (0xDD00 \<le> (0xD800 :: uint32_t) \<and> (0xD800 :: uint32_t) < 0xE000))
   \<and> ((0::int) \<le> 0 \<and> (0::int) < 1
      \<and> 0 < Sstring_length \<lparr>Sstring_length = 1, Sstring_data = (\<lambda>_. 0xD800)\<rparr>
      \<and> Sstring_ref \<lparr>Sstring_length = 1, Sstring_data = (\<lambda>_. 0xD800)\<rparr> 0 = 0xD800
      \<and> (0::int) \<le> 0 \<and> 0 < Sbytevector_length \<lparr>Sbytevector_length = 4, Sbytevector_data = (\<lambda>_. 0)\<rparr>)
   \<and> c_codepoint_to_utf8b_length 0xD800 = 3
   \<and> c_codepoint_to_utf8b 0xD800 (\<lambda>_. 0) 0 4 = (0, (\<lambda>_. 0))
   \<and> c_string_to_utf8b_length \<lparr>Sstring_length = 1, Sstring_data = (\<lambda>_. 0xD800)\<rparr> 0 (0 + 1) = 3
   \<and> c_string_to_utf8b_append \<lparr>Sstring_length = 1, Sstring_data = (\<lambda>_. 0xD800)\<rparr> 0 1
         \<lparr>Sbytevector_length = 4, Sbytevector_data = (\<lambda>_. 0)\<rparr> 0
       = (Schar 0xD800, \<lparr>Sbytevector_length = 4, Sbytevector_data = (\<lambda>_. 0)\<rparr>)"
proof -
  let ?string = "\<lparr>Sstring_length = 1, Sstring_data = (\<lambda>_. 0xD800)\<rparr>"
  let ?bvec = "\<lparr>Sbytevector_length = 4, Sbytevector_data = (\<lambda>_. 0)\<rparr>"
  have h1: "(0xD800 \<le> (0xD800 :: uint32_t) \<and> (0xD800 :: uint32_t) < 0xDC80)
      \<or> (0xDD00 \<le> (0xD800 :: uint32_t) \<and> (0xD800 :: uint32_t) < 0xE000)" by simp
  have h2: "(0::int) \<le> 0 \<and> (0::int) < 1 \<and> 0 < Sstring_length ?string
      \<and> Sstring_ref ?string 0 = 0xD800 \<and> (0::int) \<le> 0 \<and> 0 < Sbytevector_length ?bvec"
    by (simp add: Sstring_ref_def)
  note t = length_does_not_validate [of "0xD800" "\<lambda>_. 0" 0 4 0 1 ?string 0 ?bvec]
  from t h1 h2 show ?thesis by blast
qed

text \<open>
  C9. Overlong sequences are escaped, not decoded: the bytes \<open>[0xC0, 0x80]\<close> (the overlong
  encoding of NUL), decoded with end of input asserted, give the two escape scalars
  \<open>0xDCC0\<close> and \<open>0xDC80\<close>; each call of the scalar decoder consumes one byte, and the
  sequence decoder consumes two bytes, writes these two scalars and never the scalar 0.
\<close>

theorem overlong_nul_is_escaped:
  "c_utf8b_to_codepoint [0xC0, 0x80] Strue = \<lparr>pair_codepoint = 0xDCC0, pair_length = 1\<rparr>
   \<and> c_utf8b_to_codepoint [0x80] Strue = \<lparr>pair_codepoint = 0xDC80, pair_length = 1\<rparr>
   \<and> c_bytes_utf8b_to_string_append [0xC0, 0x80] str 0 2 Strue
       = (\<lparr>byte_n = 2, char_n = 2\<rparr>, Sstring_set (Sstring_set str 0 0xDCC0) 1 0xDC80)
   \<and> map pair_codepoint (utf8b_units [0xC0, 0x80] Strue) = [0xDCC0, 0xDC80]"
  by (simp add: c_bytes_utf8b_to_string_append_def c_sizepair_def c_utf8b_to_codepoint_def
        c_utf8_ok_def c_bytes_utf8b_to_string_append_loop.simps utf8b_units.simps)

text \<open>
  C10. Decoder output invariant: with end of input asserted, every scalar that the sequence
  decoder writes into the string is a Unicode scalar value below \<open>0xD800\<close> or in
  \<open>[0xE000, 0x110000)\<close>, or the escape \<open>0xDC00 OR b\<close> of a byte \<open>b \<ge> 0x80\<close> of the input;
  such an escape lies in \<open>[0xDC80, 0xDCFF]\<close>; a byte below \<open>0x80\<close> is never escaped, it
  decodes to itself.
\<close>

theorem decoder_output_invariant:
  assumes eof: "eof \<noteq> Sfalse"
    and dec: "c_bytes_utf8b_to_string_append inp str str_start str_end eof = (ret, str')"
  shows "(\<forall>i. str_start \<le> i \<and> i < str_start + int (char_n ret) \<longrightarrow>
            Sstring_ref str' i < 0xD800
            \<or> (0xE000 \<le> Sstring_ref str' i \<and> Sstring_ref str' i < 0x110000)
            \<or> (\<exists>b \<in> set inp. 0x80 \<le> b \<and> Sstring_ref str' i = 0xDC00 OR ucast b))
       \<and> (\<forall>b :: octet. 0x80 \<le> b \<longrightarrow>
            0xDC80 \<le> (0xDC00 OR ucast b :: uint32_t) \<and> (0xDC00 OR ucast b :: uint32_t) \<le> 0xDCFF)
       \<and> (\<forall>b0 rest. b0 < 0x80 \<longrightarrow> c_utf8b_to_codepoint (b0 # rest) eof = c_utf8_ok (ucast b0) 1)"
proof (intro conjI allI impI)
  fix i
  assume i: "str_start \<le> i \<and> i < str_start + int (char_n ret)"
  let ?us = "take (nat (str_end - str_start)) (utf8b_units inp eof)"
  from dec have n: "char_n ret = length ?us"
    and dat: "Sstring_data str' = write_at (Sstring_data str) str_start (map pair_codepoint ?us)"
    by (auto simp add: dec_append_eq Let_def)
  define j where "j = nat (i - str_start)"
  have j': "j < length ?us" using i unfolding n j_def by linarith
  then have j: "j < length (map pair_codepoint ?us)" by (simp only: length_map)
  have ij: "i = str_start + int j" using i by (simp add: j_def)
  have "Sstring_ref str' i = map pair_codepoint ?us ! j"
    unfolding Sstring_ref_def dat ij using j by (rule write_at_inside)
  also have "\<dots> = pair_codepoint (?us ! j)" using j' by (rule nth_map)
  finally have r: "Sstring_ref str' i = pair_codepoint (?us ! j)" .
  have "?us ! j \<in> set ?us" using j' by (rule nth_mem)
  then have "?us ! j \<in> set (utf8b_units inp eof)" by (rule in_set_takeD)
  from units_range [OF eof this] show "Sstring_ref str' i < 0xD800
            \<or> (0xE000 \<le> Sstring_ref str' i \<and> Sstring_ref str' i < 0x110000)
            \<or> (\<exists>b \<in> set inp. 0x80 \<le> b \<and> Sstring_ref str' i = 0xDC00 OR ucast b)"
    unfolding r .
next
  fix b :: octet assume "0x80 \<le> b"
  then show "0xDC80 \<le> (0xDC00 OR ucast b :: uint32_t)" "(0xDC00 OR ucast b :: uint32_t) \<le> 0xDCFF"
    using escape_range by simp_all
next
  fix b0 :: octet and rest assume "b0 < 0x80"
  then show "c_utf8b_to_codepoint (b0 # rest) eof = c_utf8_ok (ucast b0) 1"
    by (intro dec_ascii) (simp add: word_less_nat_alt)
qed


theorem decoder_output_invariant_witness:
  "Strue \<noteq> Sfalse
   \<and> c_bytes_utf8b_to_string_append [0x41, 0xFF] \<lparr>Sstring_length = 2, Sstring_data = (\<lambda>_. 0)\<rparr> 0 2 Strue
       = (\<lparr>byte_n = 2, char_n = 2\<rparr>,
          \<lparr>Sstring_length = 2, Sstring_data = (\<lambda>_. 0)(0 := 0x41, 1 := 0xDCFF)\<rparr>)
   \<and> ((0::int) \<le> 1 \<and> (1::int) < 0 + int (char_n \<lparr>byte_n = 2, char_n = 2\<rparr>))
   \<and> (Sstring_ref \<lparr>Sstring_length = 2, Sstring_data = (\<lambda>_. 0)(0 := 0x41, 1 := 0xDCFF)\<rparr> 1 < 0xD800
      \<or> (0xE000 \<le> Sstring_ref \<lparr>Sstring_length = 2, Sstring_data = (\<lambda>_. 0)(0 := 0x41, 1 := 0xDCFF)\<rparr> 1
         \<and> Sstring_ref \<lparr>Sstring_length = 2, Sstring_data = (\<lambda>_. 0)(0 := 0x41, 1 := 0xDCFF)\<rparr> 1 < 0x110000)
      \<or> (\<exists>b \<in> set [0x41, 0xFF :: octet]. 0x80 \<le> b
           \<and> Sstring_ref \<lparr>Sstring_length = 2, Sstring_data = (\<lambda>_. 0)(0 := 0x41, 1 := 0xDCFF)\<rparr> 1
               = 0xDC00 OR ucast b))
   \<and> (0x80 :: octet) \<le> 0xFF
   \<and> (0xDC80 \<le> (0xDC00 OR ucast (0xFF :: octet) :: uint32_t)
      \<and> (0xDC00 OR ucast (0xFF :: octet) :: uint32_t) \<le> 0xDCFF)
   \<and> (0x41 :: octet) < 0x80
   \<and> c_utf8b_to_codepoint (0x41 # [0xFF]) Strue = c_utf8_ok (ucast (0x41 :: octet)) 1"
proof -
  let ?str = "\<lparr>Sstring_length = 2, Sstring_data = (\<lambda>_. 0)\<rparr>"
  let ?str' = "\<lparr>Sstring_length = 2, Sstring_data = (\<lambda>_. 0)(0 := 0x41, 1 := 0xDCFF)\<rparr>"
  have h1: "Strue \<noteq> Sfalse" by simp
  have h2: "c_bytes_utf8b_to_string_append [0x41, 0xFF] ?str 0 2 Strue
            = (\<lparr>byte_n = 2, char_n = 2\<rparr>, ?str')"
    by (simp add: eval_defs loop_simps)
  have h3: "(0::int) \<le> 1 \<and> (1::int) < 0 + int (char_n \<lparr>byte_n = 2, char_n = 2\<rparr>)" by simp
  have h4: "(0x80 :: octet) \<le> 0xFF" by simp
  have h5: "(0x41 :: octet) < 0x80" by simp
  note t = decoder_output_invariant [OF h1 h2]
  from t h3 have a: "Sstring_ref ?str' 1 < 0xD800
      \<or> (0xE000 \<le> Sstring_ref ?str' 1 \<and> Sstring_ref ?str' 1 < 0x110000)
      \<or> (\<exists>b \<in> set [0x41, 0xFF :: octet]. 0x80 \<le> b \<and> Sstring_ref ?str' 1 = 0xDC00 OR ucast b)"
    by blast
  from t h4 have b: "0xDC80 \<le> (0xDC00 OR ucast (0xFF :: octet) :: uint32_t)
      \<and> (0xDC00 OR ucast (0xFF :: octet) :: uint32_t) \<le> 0xDCFF"
    by blast
  from t h5 have c: "c_utf8b_to_codepoint (0x41 # [0xFF]) Strue = c_utf8_ok (ucast (0x41 :: octet)) 1"
    by blast
  from h1 h2 h3 h4 h5 a b c show ?thesis by blast
qed

end
